theory Spec2Isabelle
  imports Main "HOL-Library.Word"
begin

section \<open>Data model (internal/models/property.go)\<close>

text \<open>
  Go's \<open>int\<close> is modelled as \<open>int\<close>, \<open>int32\<close> as \<open>32 word\<close>; the conversion
  \<open>int32(i)\<close> keeps the low 32 bits. A \<open>float64\<close> is only ever copied, so it is
  carried as its 64 bits. A \<open>time.Time\<close> is a number of nanoseconds; the zero time is 0.
\<close>

type_synonym float64 = "64 word"
type_synonym time = nat

record NullString =
  nsString :: string
  nsValid :: bool

record NullInt32 =
  niInt32 :: "32 word"
  niValid :: bool

record Photo =
  URL :: string
  LocalURL :: string
  Caption :: string

type_synonym PhotoList = "Photo list"

record Property =
  prop_ID :: int
  Name :: string
  Location :: string
  Price :: float64
  Description :: NullString
  Photos :: PhotoList
  CreatedAt :: time
  UpdatedAt :: time
  ExternalID :: NullString
  MLSNumber :: NullString
  PropertyType :: NullString
  Bedrooms :: NullInt32
  Bathrooms :: NullInt32
  SquareFeet :: NullInt32
  LotSize :: NullString
  YearBuilt :: NullInt32

record SimplyRETSAddress =
  addr_Full :: string
  addr_Unit :: string
  addr_StreetNumber :: string
  addr_StreetName :: string
  addr_City :: string
  addr_State :: string
  addr_PostalCode :: string

record SimplyRETSPropertyDetails =
  det_PropertyType :: string
  det_Style :: string
  det_YearBuilt :: int
  det_Stories :: int
  det_Area :: int
  det_LotSize :: string
  det_Bedrooms :: int
  det_Bathrooms :: int

record SimplyRETSProperty =
  sr_ListingID :: string
  sr_MLSNumber :: string
  sr_Address :: SimplyRETSAddress
  sr_ListPrice :: float64
  sr_Property :: SimplyRETSPropertyDetails
  sr_Photos :: "string list"
  sr_Remarks :: string

record ProcessingStatus =
  ID :: int
  Status :: string
  TotalProperties :: int
  ProcessedCount :: int
  FailedCount :: int
  StartedAt :: time
  CompletedAt :: "time option"
  ErrorMessage :: string

text \<open>The zero value of \<open>models.ProcessingStatus\<close>.\<close>

definition zero_status :: ProcessingStatus where
  "zero_status = \<lparr>ID = 0, Status = [], TotalProperties = 0, ProcessedCount = 0,
     FailedCount = 0, StartedAt = 0, CompletedAt = None, ErrorMessage = []\<rparr>"

section \<open>Listing converter (internal/services/simplyrets.go)\<close>

definition nullString :: "string \<Rightarrow> NullString" where
  "nullString s =
     (if s = [] then \<lparr>nsString = [], nsValid = False\<rparr>
      else \<lparr>nsString = s, nsValid = True\<rparr>)"

definition nullInt32 :: "int \<Rightarrow> NullInt32" where
  "nullInt32 i =
     (if i = 0 then \<lparr>niInt32 = 0, niValid = False\<rparr>
      else \<lparr>niInt32 = word_of_int i, niValid = True\<rparr>)"

text \<open>
  \<open>FlexibleString.String()\<close> is the identity on the underlying string, so
  \<open>MLSNumber\<close> and \<open>StreetNumber\<close> are plain strings here. The fields \<open>ID\<close>,
  \<open>CreatedAt\<close> and \<open>UpdatedAt\<close> are not set by the composite literal and keep their
  zero values.
\<close>

definition convertToProperty :: "SimplyRETSProperty \<Rightarrow> PhotoList \<Rightarrow> Property" where
  "convertToProperty simplyProperty photos =
     \<lparr>prop_ID = 0,
      Name = addr_StreetNumber (sr_Address simplyProperty) @ '' '' @
             addr_StreetName (sr_Address simplyProperty),
      Location = addr_Full (sr_Address simplyProperty),
      Price = sr_ListPrice simplyProperty,
      Description = nullString (sr_Remarks simplyProperty),
      Photos = photos,
      CreatedAt = 0,
      UpdatedAt = 0,
      ExternalID = nullString (sr_ListingID simplyProperty),
      MLSNumber = nullString (sr_MLSNumber simplyProperty),
      PropertyType = nullString (det_PropertyType (sr_Property simplyProperty)),
      Bedrooms = nullInt32 (det_Bedrooms (sr_Property simplyProperty)),
      Bathrooms = nullInt32 (det_Bathrooms (sr_Property simplyProperty)),
      SquareFeet = nullInt32 (det_Area (sr_Property simplyProperty)),
      LotSize = nullString (det_LotSize (sr_Property simplyProperty)),
      YearBuilt = nullInt32 (det_YearBuilt (sr_Property simplyProperty))\<rparr>"

section \<open>Formatting and string helpers\<close>

text \<open>\<open>%d\<close> of \<open>fmt.Sprintf\<close>, \<open>strings.Contains\<close> and \<open>strings.Join\<close>.\<close>

fun digits :: "nat \<Rightarrow> string" where
  "digits n =
     (if n < 10 then [''0123456789'' ! n]
      else digits (n div 10) @ [''0123456789'' ! (n mod 10)])"

declare digits.simps [simp del]

definition show_int :: "int \<Rightarrow> string" where
  "show_int i = (if i < 0 then CHR ''-'' # digits (nat (- i)) else digits (nat i))"

fun hasPrefix :: "string \<Rightarrow> string \<Rightarrow> bool" where
  "hasPrefix s [] = True"
| "hasPrefix [] (p # ps) = False"
| "hasPrefix (c # cs) (p # ps) = (c = p \<and> hasPrefix cs ps)"

fun Contains :: "string \<Rightarrow> string \<Rightarrow> bool" where
  "Contains [] substr = (substr = [])"
| "Contains (c # cs) substr = (hasPrefix (c # cs) substr \<or> Contains cs substr)"

fun Join :: "string list \<Rightarrow> string \<Rightarrow> string" where
  "Join [] sep = []"
| "Join [x] sep = x"
| "Join (x # y # ys) sep = x @ sep @ Join (y # ys) sep"

section \<open>Collaborators\<close>

text \<open>
  A Go \<open>error\<close> is carried as its message (\<open>err.Error()\<close>); a function returning
  \<open>(T, error)\<close> returns \<open>error + T\<close>, one returning only \<open>error\<close> returns
  \<open>error option\<close> (\<open>None\<close> is \<open>nil\<close>).

  The upstream API, the image hosts, the file system and the repository are outside the
  program. What they answer is an input of the model: an \<open>env\<close> holds, for each
  call the pipeline can make, the answer it gets.
\<close>

type_synonym error = string

datatype api_outcome =
    ApiRequestInvalid string
  | ApiTransportError string
  | ApiResponse int "string + SimplyRETSProperty list"

datatype image_outcome =
    ImgRequestInvalid string
  | ImgTransportError string
  | ImgResponse int string

record env =
  api :: "int \<Rightarrow> api_outcome"
  image :: "string \<Rightarrow> image_outcome"
  fs_create :: "string \<Rightarrow> string option"
  fs_copy :: "string \<Rightarrow> string option"
  repo_Create :: "Property \<Rightarrow> string option"

text \<open>The calls that reach a collaborator, in the order they are made.\<close>

datatype call = HttpGet string | OsCreate string | RepoCreate Property

section \<open>Listing source adapter: fetchProperties\<close>

text \<open>
  \<open>ApiRequestInvalid\<close>: \<open>http.NewRequestWithContext\<close> fails; \<open>ApiTransportError\<close>:
  \<open>client.Do\<close> fails (a cancelled context included); \<open>ApiResponse code body\<close>: a
  response with that status, whose body decodes to \<open>body\<close> (\<open>Inl\<close> the decoder's error).
\<close>

definition fetchProperties :: "env \<Rightarrow> int \<Rightarrow> error + SimplyRETSProperty list" where
  "fetchProperties e limit =
     (case api e limit of
        ApiRequestInvalid m \<Rightarrow> Inl (''failed to create request: '' @ m)
      | ApiTransportError m \<Rightarrow> Inl (''failed to fetch properties: '' @ m)
      | ApiResponse code body \<Rightarrow>
          if code \<noteq> 200 then Inl (''API returned status '' @ show_int code)
          else (case body of
                  Inl m \<Rightarrow> Inl (''failed to decode response: '' @ m)
                | Inr properties \<Rightarrow> Inr properties))"

section \<open>Media fetcher: downloadImage, downloadImages\<close>

definition downloadImage :: "env \<Rightarrow> string \<Rightarrow> string \<Rightarrow> nat \<Rightarrow> (error + string) \<times> call list" where
  "downloadImage e imageURL propertyID index =
     (case image e imageURL of
        ImgRequestInvalid m \<Rightarrow> (Inl (''failed to create image request: '' @ m), [])
      | ImgTransportError m \<Rightarrow> (Inl (''failed to download image: '' @ m), [HttpGet imageURL])
      | ImgResponse code ctype \<Rightarrow>
          if code \<noteq> 200
          then (Inl (''image download returned status '' @ show_int code), [HttpGet imageURL])
          else
            (let ext = (if Contains ctype ''png'' then ''.png'' else ''.jpg'');
                 filename = propertyID @ ''_'' @ show_int (int index) @ ext
             in case fs_create e filename of
                  Some m \<Rightarrow> (Inl (''failed to create image file: '' @ m),
                               [HttpGet imageURL, OsCreate filename])
                | None \<Rightarrow>
                    (case fs_copy e filename of
                       Some m \<Rightarrow> (Inl (''failed to save image: '' @ m),
                                    [HttpGet imageURL, OsCreate filename])
                     | None \<Rightarrow> (Inr (''/images/'' @ filename),
                                  [HttpGet imageURL, OsCreate filename]))))"

text \<open>
  One download goroutine of \<open>downloadImages\<close>: it sends either a photo or an error.
  \<open>ctxDone\<close> is what its \<open>select\<close> on \<open>ctx.Done()\<close> sees.
\<close>

definition downloadTask ::
  "env \<Rightarrow> bool \<Rightarrow> string \<Rightarrow> nat \<times> string \<Rightarrow> (error + Photo) \<times> call list" where
  "downloadTask e ctxDone propertyID t =
     (case t of (index, imageURL) \<Rightarrow>
        if ctxDone then (Inl ''context canceled'', [])
        else (case downloadImage e imageURL propertyID index of
                (Inl err, cs) \<Rightarrow> (Inl err, cs)
              | (Inr localPath, cs) \<Rightarrow>
                  (Inr \<lparr>URL = imageURL, LocalURL = localPath,
                        Caption = ''Property image '' @ show_int (int index + 1)\<rparr>, cs)))"

fun photos_of :: "((error + Photo) \<times> call list) list \<Rightarrow> PhotoList" where
  "photos_of [] = []"
| "photos_of ((Inr photo, cs) # rs) = photo # photos_of rs"
| "photos_of ((Inl err, cs) # rs) = photos_of rs"

fun errors_of :: "((error + Photo) \<times> call list) list \<Rightarrow> string list" where
  "errors_of [] = []"
| "errors_of ((Inl err, cs) # rs) = err # errors_of rs"
| "errors_of ((Inr photo, cs) # rs) = errors_of rs"

text \<open>
  The goroutines run concurrently; the model runs them in index order, which fixes the
  order of the photos and of the messages in the combined error and nothing else.
\<close>

definition downloadImages ::
  "env \<Rightarrow> bool \<Rightarrow> string list \<Rightarrow> string \<Rightarrow> (PhotoList \<times> error option) \<times> call list" where
  "downloadImages e ctxDone imageURLs propertyID =
     (if length imageURLs = 0 then (([], None), [])
      else
        (let rs = map (downloadTask e ctxDone propertyID) (enumerate 0 imageURLs);
             photos = photos_of rs;
             errors = errors_of rs
         in if length errors > 0
            then ((photos, Some (''some images failed to download: '' @ Join errors ''; '')),
                  concat (map snd rs))
            else ((photos, None), concat (map snd rs))))"

section \<open>Ingestion pipeline: one listing, one batch\<close>

definition processProperty :: "env \<Rightarrow> bool \<Rightarrow> SimplyRETSProperty \<Rightarrow> error option \<times> call list" where
  "processProperty e ctxDone simplyProperty =
     (case downloadImages e ctxDone (sr_Photos simplyProperty) (sr_ListingID simplyProperty) of
        ((photos, Some err), cs) \<Rightarrow>
          (Some (''failed to download images for property '' @ sr_ListingID simplyProperty
                 @ '': '' @ err), cs)
      | ((photos, None), cs) \<Rightarrow>
          (let property = convertToProperty simplyProperty photos
           in case repo_Create e property of
                Some err \<Rightarrow>
                  (Some (''failed to save property '' @ sr_ListingID simplyProperty
                         @ '': '' @ err), cs @ [RepoCreate property])
              | None \<Rightarrow> (None, cs @ [RepoCreate property])))"

text \<open>
  One worker goroutine of \<open>processBatch\<close>: the value it sends on \<open>results\<close> and
  the calls it made.
\<close>

definition worker :: "env \<Rightarrow> bool \<Rightarrow> SimplyRETSProperty \<Rightarrow> error option \<times> call list" where
  "worker e ctxDone property =
     (if ctxDone then (Some ''context canceled'', [])
      else processProperty e ctxDone property)"

text \<open>The loop \<open>for err := range results\<close> of \<open>processBatch\<close>.\<close>

fun tally :: "error option list \<Rightarrow> ProcessingStatus \<Rightarrow> ProcessingStatus" where
  "tally [] status = status"
| "tally (err # results) status =
     tally results
       (if err \<noteq> None then status\<lparr>FailedCount := FailedCount status + 1\<rparr>
        else status\<lparr>ProcessedCount := ProcessedCount status + 1\<rparr>)"

section \<open>Status channel\<close>

text \<open>
  A buffered Go channel of snapshots: its queue, its capacity, and whether it has been
  closed. A send on a closed channel panics; a send on a full one blocks. The only
  receive in the program is the non-blocking one of \<open>GetJobStatus\<close>: it takes the head
  of the queue, yields the zero value at once on a closed and drained channel, and
  otherwise falls through to \<open>default\<close> (\<open>None\<close>).
\<close>

record chan =
  buf :: "ProcessingStatus list"
  cap :: nat
  closed :: bool

definition make_chan :: "nat \<Rightarrow> chan" where
  "make_chan n = \<lparr>buf = [], cap = n, closed = False\<rparr>"

datatype send_result = Sent chan | Blocked | SendPanic

definition chan_send :: "chan \<Rightarrow> ProcessingStatus \<Rightarrow> send_result" where
  "chan_send c v =
     (if closed c then SendPanic
      else if length (buf c) < cap c then Sent (c\<lparr>buf := buf c @ [v]\<rparr>)
      else Blocked)"

definition chan_recv :: "chan \<Rightarrow> (ProcessingStatus \<times> chan) option" where
  "chan_recv c =
     (case buf c of
        v # vs \<Rightarrow> Some (v, c\<lparr>buf := vs\<rparr>)
      | [] \<Rightarrow> if closed c then Some (zero_status, c) else None)"

section \<open>The process state\<close>

text \<open>
  The registry maps an id to a \<open>*ProcessingJob\<close>: a job is an address in \<open>heap\<close>, and
  a goroutine that has looked a job up keeps its address after the job is deleted from
  the registry. \<open>ProcessingJob\<close> holds its channel and its cancel function by reference
  too: a channel is an address in \<open>chans\<close>, a context an address in \<open>cancelled\<close>. The
  supervisor goroutine holds the same two addresses, so a channel closed through the
  registry is closed for the supervisor too.
\<close>

record ProcessingJob =
  job_ID :: string
  job_Status :: nat
  job_Cancel :: nat
  StartTime :: time
  LastStatus :: "ProcessingStatus option"
  job_CompletedAt :: "time option"

definition zero_job :: ProcessingJob where
  "zero_job = \<lparr>job_ID = [], job_Status = 0, job_Cancel = 0, StartTime = 0, LastStatus = None,
               job_CompletedAt = None\<rparr>"

text \<open>
  Where the supervisor goroutine (\<open>processProperties\<close>) stands. Each point is just
  before one interaction with shared state; \<open>PLoop i\<close> is the head of the batch loop
  with index \<open>i\<close>, \<open>PBatch i pending results\<close> is inside \<open>processBatch\<close> with the
  workers of \<open>pending\<close> still to report and \<open>results\<close> already reported.
\<close>

datatype pc =
    PInit
  | PSendInitial
  | PFetch
  | PSendTotal
  | PLoop nat
  | PBatch nat "SimplyRETSProperty list" "error option list"
  | PBatchSend nat
  | PSendFinal
  | PMark
  | PReturned

text \<open>
  Where a call of \<open>GetJobStatus\<close> stands. The call is not one atomic action: \<open>GetJob\<close>
  releases the registry lock when it returns, and \<open>job.mu\<close> is released between the
  receive from \<open>job.Status\<close> and the write of \<open>job.LastStatus\<close>, and again before the
  re-send. \<open>RLookedUp job\<close>: \<open>GetJob\<close> has returned this job. \<open>RReceived job st\<close>:
  \<open>st\<close> has been received from the job's channel. \<open>RCached job st\<close>: \<open>st\<close> has been
  written to \<open>job.LastStatus\<close>. \<open>RReturned res found\<close>: the call has returned
  (\<open>None\<close> is \<open>nil\<close>).
\<close>

datatype reader =
    RLookedUp nat
  | RReceived nat ProcessingStatus
  | RCached nat ProcessingStatus
  | RReturned "ProcessingStatus option" bool

text \<open>
  The state of the process that runs one job: the registry (\<open>GlobalJobManager.jobs\<close>),
  the job objects, the channels and contexts, the clock, the cleanup goroutines asleep
  (earliest wake-up time and job id), the calls of \<open>GetJobStatus\<close> made so far
  (the id asked for and where the call stands), the supervisor's position and local
  variables, and whether a goroutine has panicked.
  \<open>calls\<close> and \<open>published\<close> are history: the calls made to collaborators and the
  snapshots the supervisor has sent on the status channel, oldest first.
\<close>

record world =
  jobs :: "string \<rightharpoonup> nat"
  heap :: "nat \<Rightarrow> ProcessingJob"
  chans :: "nat \<Rightarrow> chan"
  cancelled :: "nat \<Rightarrow> bool"
  clock :: time
  sleepers :: "(time \<times> string) list"
  readers :: "(string \<times> reader) list"
  panic :: "string option"
  pc :: pc
  sup_ctx :: nat
  sup_jobID :: string
  sup_statusChan :: nat
  sup_limit :: int
  status :: ProcessingStatus
  properties :: "SimplyRETSProperty list"
  calls :: "call list"
  published :: "ProcessingStatus list"

text \<open>The job registered under an id, if any, as it is now.\<close>

definition job_of :: "world \<Rightarrow> string \<Rightarrow> ProcessingJob option" where
  "job_of w jid = map_option (heap w) (jobs w jid)"

section \<open>Job registry: JobManager\<close>

definition JobRetentionDuration :: nat where
  "JobRetentionDuration = 5 * (60 * 1000000000)"

definition AddJob :: "string \<Rightarrow> nat \<Rightarrow> world \<Rightarrow> world" where
  "AddJob jid job w = w\<lparr>jobs := (jobs w)(jid \<mapsto> job)\<rparr>"

definition GetJob :: "string \<Rightarrow> world \<Rightarrow> nat option" where
  "GetJob jid w = jobs w jid"

text \<open>
  \<open>close(job.Status); delete(jm.jobs, id)\<close>, as \<open>RemoveJob\<close> and \<open>CleanupJob\<close> do
  it under the registry lock. Closing a closed channel panics.
\<close>

definition close_and_delete :: "string \<Rightarrow> nat \<Rightarrow> world \<Rightarrow> world" where
  "close_and_delete jid job w =
     (let ch = job_Status (heap w job)
      in if closed (chans w ch) then w\<lparr>panic := Some ''close of closed channel''\<rparr>
         else w\<lparr>chans := (chans w)(ch := (chans w ch)\<lparr>closed := True\<rparr>),
                jobs := (jobs w)(jid := None)\<rparr>)"

definition RemoveJob :: "string \<Rightarrow> world \<Rightarrow> world" where
  "RemoveJob jid w =
     (case jobs w jid of
        Some job \<Rightarrow> close_and_delete jid job w
      | None \<Rightarrow> w)"

text \<open>
  The goroutine started by \<open>MarkJobCompleted\<close> sleeps for the retention duration and
  then calls \<open>CleanupJob\<close>: it is recorded in \<open>sleepers\<close> with the earliest time at
  which it can wake.
\<close>

definition MarkJobCompleted :: "string \<Rightarrow> ProcessingStatus \<Rightarrow> world \<Rightarrow> world" where
  "MarkJobCompleted jid finalStatus w =
     (case jobs w jid of
        Some job \<Rightarrow>
          w\<lparr>heap := (heap w)(job := (heap w job)\<lparr>LastStatus := Some finalStatus,
                                                   job_CompletedAt := Some (clock w)\<rparr>),
            sleepers := sleepers w @ [(clock w + JobRetentionDuration, jid)]\<rparr>
      | None \<Rightarrow> w)"

definition CleanupJob :: "string \<Rightarrow> world \<Rightarrow> world" where
  "CleanupJob jid w =
     (case jobs w jid of
        Some job \<Rightarrow>
          (case job_CompletedAt (heap w job) of
             Some completedTime \<Rightarrow>
               if int (clock w) - int completedTime \<ge> int JobRetentionDuration
               then close_and_delete jid job w
               else w
           | None \<Rightarrow> w)
      | None \<Rightarrow> w)"

section \<open>Job control surface\<close>

text \<open>
  A process that has started nothing, at time \<open>t\<close>, and \<open>StartPropertyProcessing\<close> on
  it: the new job, its channel and its context get address 0, the job is registered, and
  the supervisor goroutine is at its first statement.
\<close>

definition boot :: "time \<Rightarrow> world" where
  "boot t =
     \<lparr>jobs = Map.empty, heap = (\<lambda>r. zero_job), chans = (\<lambda>r. make_chan 0),
      cancelled = (\<lambda>r. False), clock = t, sleepers = [], readers = [], panic = None,
      pc = PReturned, sup_ctx = 0, sup_jobID = [], sup_statusChan = 0, sup_limit = 0,
      status = zero_status, properties = [], calls = [], published = []\<rparr>"

definition StartPropertyProcessing :: "string \<Rightarrow> int \<Rightarrow> world \<Rightarrow> world" where
  "StartPropertyProcessing jobID limit w =
     (let jobCtx = 0;
          statusChan = 0;
          job = 0
      in (AddJob jobID job
            (w\<lparr>chans := (chans w)(statusChan := make_chan 100),
               cancelled := (cancelled w)(jobCtx := False),
               heap := (heap w)(job :=
                 \<lparr>job_ID = jobID, job_Status = statusChan, job_Cancel = jobCtx,
                  StartTime = clock w, LastStatus = None, job_CompletedAt = None\<rparr>)\<rparr>))
         \<lparr>pc := PInit, sup_ctx := jobCtx, sup_jobID := jobID, sup_statusChan := statusChan,
          sup_limit := limit, status := zero_status, properties := []\<rparr>)"

text \<open>
  \<open>GetJobStatus\<close>, one atomic section at a time. The lookup is \<open>GetJob\<close>, under the
  registry lock. The next section runs under \<open>job.mu.RLock()\<close>: it returns the cached
  snapshot if there is one, else it makes the non-blocking receive, which on an empty open
  channel falls through to \<open>default\<close> and returns the synthesized snapshot. (Writers of
  \<open>job.LastStatus\<close> are excluded by the lock for the whole section; a send or a close
  that falls between the check and the receive acts as if it came before the check.) Then
  the write of \<open>job.LastStatus\<close> under \<open>job.mu.Lock()\<close>; then the non-blocking
  re-send, which panics on a closed channel, and the return.
\<close>

definition GetJobStatus_lookup :: "string \<Rightarrow> world \<Rightarrow> reader" where
  "GetJobStatus_lookup jobID w =
     (case GetJob jobID w of
        None \<Rightarrow> RReturned None False
      | Some job \<Rightarrow> RLookedUp job)"

definition GetJobStatus_step :: "reader \<Rightarrow> world \<Rightarrow> reader \<times> world" where
  "GetJobStatus_step r w =
     (case r of
        RLookedUp job \<Rightarrow>
          (case LastStatus (heap w job) of
             Some lastStatus \<Rightarrow> (RReturned (Some lastStatus) True, w)
           | None \<Rightarrow>
               (case chan_recv (chans w (job_Status (heap w job))) of
                  Some (st, c) \<Rightarrow>
                    (RReceived job st, w\<lparr>chans := (chans w)(job_Status (heap w job) := c)\<rparr>)
                | None \<Rightarrow>
                    (RReturned
                       (Some (zero_status\<lparr>Status := ''running'',
                                          StartedAt := StartTime (heap w job)\<rparr>)) True, w)))
      | RReceived job st \<Rightarrow>
          (RCached job st, w\<lparr>heap := (heap w)(job := (heap w job)\<lparr>LastStatus := Some st\<rparr>)\<rparr>)
      | RCached job st \<Rightarrow>
          (case chan_send (chans w (job_Status (heap w job))) st of
             Sent c \<Rightarrow>
               (RReturned (Some st) True, w\<lparr>chans := (chans w)(job_Status (heap w job) := c)\<rparr>)
           | Blocked \<Rightarrow> (RReturned (Some st) True, w)
           | SendPanic \<Rightarrow> (RCached job st, w\<lparr>panic := Some ''send on closed channel''\<rparr>))
      | RReturned res found \<Rightarrow> (RReturned res found, w))"

text \<open>A call of \<open>GetJobStatus\<close> that nothing interleaves with: its sections in a row.\<close>

definition GetJobStatus :: "string \<Rightarrow> world \<Rightarrow> reader \<times> world" where
  "GetJobStatus jobID w =
     (case GetJobStatus_step (GetJobStatus_lookup jobID w) w of
        (r1, w1) \<Rightarrow>
          (case GetJobStatus_step r1 w1 of
             (r2, w2) \<Rightarrow> GetJobStatus_step r2 w2))"

definition CancelJob :: "string \<Rightarrow> world \<Rightarrow> bool \<times> world" where
  "CancelJob jobID w =
     (case GetJob jobID w of
        None \<Rightarrow> (False, w)
      | Some job \<Rightarrow>
          (True, RemoveJob jobID
                   (w\<lparr>cancelled := (cancelled w)(job_Cancel (heap w job) := True)\<rparr>)))"

section \<open>Ingestion pipeline: the supervisor\<close>

definition batchSize :: nat where
  "batchSize = 10"

text \<open>\<open>statusChan <- status\<close>, continuing at \<open>next\<close> once the value is queued.\<close>

definition send_status :: "world \<Rightarrow> pc \<Rightarrow> world" where
  "send_status w next =
     (case chan_send (chans w (sup_statusChan w)) (status w) of
        SendPanic \<Rightarrow> w\<lparr>panic := Some ''send on closed channel''\<rparr>
      | Blocked \<Rightarrow> w
      | Sent c \<Rightarrow>
          w\<lparr>chans := (chans w)(sup_statusChan w := c),
            published := published w @ [status w],
            pc := next\<rparr>)"

text \<open>
  \<open>select { case statusChan <- status: ... case <-ctx.Done(): ... }\<close>. A send on a
  closed channel is ready (and panics when chosen). When both cases are ready Go picks
  one at random: \<open>pick\<close> says whether it is the send.
\<close>

definition select_send :: "bool \<Rightarrow> world \<Rightarrow> pc \<Rightarrow> pc \<Rightarrow> world" where
  "select_send pick w on_send on_done =
     (let c = chans w (sup_statusChan w);
          can_send = (closed c \<or> length (buf c) < cap c);
          ctx_done = cancelled w (sup_ctx w)
      in if can_send \<and> (\<not> ctx_done \<or> pick) then send_status w on_send
         else if ctx_done then w\<lparr>pc := on_done\<rparr>
         else w)"

text \<open>
  One step of \<open>processProperties\<close>. The workers of a batch run concurrently; the model
  lets them report one at a time, in the order of the batch, each reading the
  cancellation flag when it starts. \<open>wg.Wait()\<close> returns when all have reported.
\<close>

definition sup_step :: "env \<Rightarrow> bool \<Rightarrow> world \<Rightarrow> world" where
  "sup_step e pick w =
     (case pc w of
        PInit \<Rightarrow>
          w\<lparr>status := \<lparr>ID = 0, Status = ''running'', TotalProperties = 0,
                         ProcessedCount = 0, FailedCount = 0, StartedAt = clock w,
                         CompletedAt = None, ErrorMessage = []\<rparr>,
            pc := PSendInitial\<rparr>
      | PSendInitial \<Rightarrow> select_send pick w PFetch PReturned
      | PFetch \<Rightarrow>
          (case fetchProperties e (sup_limit w) of
             Inl err \<Rightarrow>
               w\<lparr>status := (status w)\<lparr>Status := ''failed'', ErrorMessage := err,
                                          CompletedAt := Some (clock w)\<rparr>,
                 pc := PSendFinal\<rparr>
           | Inr props \<Rightarrow>
               w\<lparr>properties := props,
                 status := (status w)\<lparr>TotalProperties := int (length props)\<rparr>,
                 pc := PSendTotal\<rparr>)
      | PSendTotal \<Rightarrow> send_status w (PLoop 0)
      | PLoop i \<Rightarrow>
          if i < length (properties w) then
            (if cancelled w (sup_ctx w)
             then w\<lparr>status := (status w)\<lparr>Status := ''cancelled'',
                                            CompletedAt := Some (clock w)\<rparr>,
                   pc := PSendFinal\<rparr>
             else w\<lparr>pc := PBatch i (take batchSize (drop i (properties w))) []\<rparr>)
          else
            w\<lparr>status := (status w)\<lparr>Status := ''completed'',
                                       CompletedAt := Some (clock w)\<rparr>,
              pc := PSendFinal\<rparr>
      | PBatch i pending results \<Rightarrow>
          (case pending of
             property # rest \<Rightarrow>
               (case worker e (cancelled w (sup_ctx w)) property of
                  (err, cs) \<Rightarrow>
                    w\<lparr>calls := calls w @ cs, pc := PBatch i rest (results @ [err])\<rparr>)
           | [] \<Rightarrow> w\<lparr>status := tally results (status w), pc := PBatchSend i\<rparr>)
      | PBatchSend i \<Rightarrow> select_send pick w (PLoop (i + batchSize)) (PLoop (i + batchSize))
      | PSendFinal \<Rightarrow> send_status w PMark
      | PMark \<Rightarrow> (MarkJobCompleted (sup_jobID w) (status w) w)\<lparr>pc := PReturned\<rparr>
      | PReturned \<Rightarrow> w)"

section \<open>Runs of the process\<close>

text \<open>
  What can happen next: the supervisor takes a step (with the collaborators' answers for
  that step and the choice of its \<open>select\<close>); somebody holding the job calls
  \<open>job.Cancel()\<close>; \<open>RemoveJob\<close> or \<open>CancelJob\<close> is called with an id; a new call
  of \<open>GetJobStatus\<close> looks its id up; the \<open>k\<close>-th call of \<open>GetJobStatus\<close> runs its
  next section; time passes; the \<open>k\<close>-th sleeping cleanup goroutine wakes, which it does
  only once its sleep is over. A panic in any goroutine ends the process.

  A run is any interleaving of these events; each event is one critical section or one
  channel operation of the source. \<open>CancelJob\<close> is \<open>job.Cancel()\<close> followed by
  \<open>RemoveJob\<close>; a run in which another goroutine steps between the two has \<open>Cancel\<close>
  and \<open>Remove\<close> as separate events. The process runs one job: the one
  \<open>StartPropertyProcessing\<close> registered.
\<close>

datatype event =
    Step bool env
  | Cancel
  | Remove string
  | CancelReq string
  | Query string
  | Read nat
  | Tick nat
  | Wake nat

definition step :: "event \<Rightarrow> world \<Rightarrow> world" where
  "step ev w =
     (case ev of
        Step pick e \<Rightarrow> sup_step e pick w
      | Cancel \<Rightarrow> w\<lparr>cancelled := (cancelled w)(sup_ctx w := True)\<rparr>
      | Remove jid \<Rightarrow> RemoveJob jid w
      | CancelReq jid \<Rightarrow> snd (CancelJob jid w)
      | Query jid \<Rightarrow> w\<lparr>readers := readers w @ [(jid, GetJobStatus_lookup jid w)]\<rparr>
      | Read k \<Rightarrow>
          if k < length (readers w)
          then (case GetJobStatus_step (snd (readers w ! k)) w of
                  (r, w') \<Rightarrow> w'\<lparr>readers := (readers w)[k := (fst (readers w ! k), r)]\<rparr>)
          else w
      | Tick d \<Rightarrow> w\<lparr>clock := clock w + d\<rparr>
      | Wake k \<Rightarrow>
          if k < length (sleepers w) \<and> fst (sleepers w ! k) \<le> clock w
          then CleanupJob (snd (sleepers w ! k))
                 (w\<lparr>sleepers := take k (sleepers w) @ drop (Suc k) (sleepers w)\<rparr>)
          else w)"

fun run :: "event list \<Rightarrow> world \<Rightarrow> world" where
  "run [] w = w"
| "run (ev # evs) w = (if panic w \<noteq> None then w else run evs (step ev w))"

section \<open>Invariants of a run\<close>

text \<open>
  Predicates used in the proofs below. \<open>le_counts a b\<close>: neither counter of \<open>b\<close> is
  below that of \<open>a\<close>. \<open>initial_like s\<close>: a running snapshot with all counts zero.
  \<open>snapshot_ok n s\<close>: the counts of \<open>s\<close> are consistent with \<open>n\<close> listings.
  \<open>final_like n st\<close> and \<open>pc_ok p n st\<close>: what the supervisor's \<open>status\<close> looks like at
  each point of \<open>processProperties\<close>. \<open>sup_ok w\<close> puts these together with the history
  of published snapshots.
\<close>

definition le_counts :: "ProcessingStatus \<Rightarrow> ProcessingStatus \<Rightarrow> bool" where
  "le_counts a b = (ProcessedCount a \<le> ProcessedCount b \<and> FailedCount a \<le> FailedCount b)"

definition initial_like :: "ProcessingStatus \<Rightarrow> bool" where
  "initial_like s =
     (Status s = ''running'' \<and> TotalProperties s = 0 \<and> ProcessedCount s = 0 \<and>
      FailedCount s = 0)"

definition snapshot_ok :: "nat \<Rightarrow> ProcessingStatus \<Rightarrow> bool" where
  "snapshot_ok n s =
     (0 \<le> ProcessedCount s \<and> 0 \<le> FailedCount s \<and>
      ProcessedCount s + FailedCount s \<le> TotalProperties s \<and>
      (TotalProperties s = int n \<or> initial_like s) \<and>
      (Status s = ''completed'' \<longrightarrow> ProcessedCount s + FailedCount s = int n))"

definition final_like :: "nat \<Rightarrow> ProcessingStatus \<Rightarrow> bool" where
  "final_like n st =
     (CompletedAt st \<noteq> None \<and>
      (Status st = ''completed'' \<and> TotalProperties st = int n \<and>
         ProcessedCount st + FailedCount st = int n
       \<or> Status st = ''cancelled'' \<and> TotalProperties st = int n
       \<or> Status st = ''failed'' \<and> TotalProperties st = 0 \<and> ProcessedCount st = 0 \<and>
         FailedCount st = 0 \<and> n = 0 \<and> ErrorMessage st \<noteq> []))"

fun pc_ok :: "pc \<Rightarrow> nat \<Rightarrow> ProcessingStatus \<Rightarrow> bool" where
  "pc_ok PInit n st = (st = zero_status)"
| "pc_ok PSendInitial n st = initial_like st"
| "pc_ok PFetch n st = initial_like st"
| "pc_ok PSendTotal n st =
     (Status st = ''running'' \<and> TotalProperties st = int n \<and> ProcessedCount st = 0 \<and>
      FailedCount st = 0)"
| "pc_ok (PLoop i) n st =
     (Status st = ''running'' \<and> TotalProperties st = int n \<and>
      ProcessedCount st + FailedCount st = int (min i n))"
| "pc_ok (PBatch i pending results) n st =
     (Status st = ''running'' \<and> TotalProperties st = int n \<and> i < n \<and>
      ProcessedCount st + FailedCount st = int i \<and>
      i + length pending + length results = min (i + batchSize) n)"
| "pc_ok (PBatchSend i) n st =
     (Status st = ''running'' \<and> TotalProperties st = int n \<and>
      ProcessedCount st + FailedCount st = int (min (i + batchSize) n))"
| "pc_ok PSendFinal n st = final_like n st"
| "pc_ok PMark n st = final_like n st"
| "pc_ok PReturned n st = (final_like n st \<or> initial_like st)"

definition sup_ok :: "world \<Rightarrow> bool" where
  "sup_ok w =
     (let n = length (properties w) in
        pc_ok (pc w) n (status w) \<and>
        (pc w = PInit \<longrightarrow> published w = [] \<and> properties w = []) \<and>
        (pc w \<noteq> PInit \<longrightarrow> snapshot_ok n (status w)) \<and>
        (pc w = PSendInitial \<or> pc w = PFetch \<longrightarrow>
           properties w = [] \<and> (\<forall>s\<in>set (published w). initial_like s)) \<and>
        (\<forall>s\<in>set (published w). snapshot_ok n s \<and> le_counts s (status w)) \<and>
        sorted_wrt le_counts (published w))"

text \<open>
  \<open>reg_ok jid w\<close>: the registry holds at most the job \<open>jid\<close>, at address 0; that job
  refers to the supervisor's channel and context; while it is registered its channel is
  open, and the channel is within capacity; a goroutine has panicked only if the channel
  is closed. Every call of \<open>GetJobStatus\<close> in progress holds that job, and a call
  has returned not-found only for an id that is not registered. \<open>seen_ok jid w\<close>: every snapshot queued on the channel, held by a call of
  \<open>GetJobStatus\<close> while the channel is open, or cached in the registered job was
  published by the supervisor, or is the final one handed to \<open>MarkJobCompleted\<close>.
\<close>

fun reader_ok :: "nat option \<Rightarrow> reader \<Rightarrow> bool" where
  "reader_ok j (RLookedUp job) = (job = 0)"
| "reader_ok j (RReceived job st) = (job = 0)"
| "reader_ok j (RCached job st) = (job = 0)"
| "reader_ok j (RReturned res found) = (found = (res \<noteq> None) \<and> (res = None \<longrightarrow> j = None))"

fun reader_holds :: "reader \<Rightarrow> ProcessingStatus option" where
  "reader_holds (RLookedUp job) = None"
| "reader_holds (RReceived job st) = Some st"
| "reader_holds (RCached job st) = Some st"
| "reader_holds (RReturned res found) = None"

definition reg_inv :: "string \<Rightarrow> (string \<rightharpoonup> nat) \<Rightarrow> chan \<Rightarrow> bool" where
  "reg_inv jid js c =
     (cap c = 100 \<and> length (buf c) \<le> 100 \<and>
      (\<forall>k. k \<noteq> jid \<longrightarrow> js k = None) \<and>
      (\<forall>job. js jid = Some job \<longrightarrow> job = 0 \<and> \<not> closed c))"

definition readers_inv :: "(string \<rightharpoonup> nat) \<Rightarrow> (string \<times> reader) list \<Rightarrow> bool" where
  "readers_inv js rs = (\<forall>c\<in>set rs. reader_ok (js (fst c)) (snd c))"

definition reg_ok :: "string \<Rightarrow> world \<Rightarrow> bool" where
  "reg_ok jid w =
     (sup_jobID w = jid \<and> sup_statusChan w = 0 \<and> sup_ctx w = 0 \<and>
      job_Status (heap w 0) = 0 \<and> job_Cancel (heap w 0) = 0 \<and>
      (panic w \<noteq> None \<longrightarrow> closed (chans w 0)) \<and>
      readers_inv (jobs w) (readers w) \<and>
      reg_inv jid (jobs w) (chans w 0))"

definition seen_inv ::
  "ProcessingStatus list \<Rightarrow> ProcessingStatus list \<Rightarrow> bool \<Rightarrow> (string \<times> reader) list \<Rightarrow>
   ProcessingJob option \<Rightarrow> pc \<Rightarrow> ProcessingStatus \<Rightarrow> bool" where
  "seen_inv queue pub cl rs j p st =
     ((\<forall>s\<in>set queue. s \<in> set pub) \<and>
      (\<forall>c\<in>set rs. \<forall>s. reader_holds (snd c) = Some s \<longrightarrow> s \<in> set pub \<or> cl) \<and>
      (\<forall>job s. j = Some job \<longrightarrow> LastStatus job = Some s \<longrightarrow>
         s \<in> set pub \<or> (p = PReturned \<and> s = st)))"

definition seen_ok :: "string \<Rightarrow> world \<Rightarrow> bool" where
  "seen_ok jid w =
     seen_inv (buf (chans w 0)) (published w) (closed (chans w 0)) (readers w) (job_of w jid)
       (pc w) (status w)"

definition world_ok :: "string \<Rightarrow> world \<Rightarrow> bool" where
  "world_ok jid w = (sup_ok w \<and> reg_ok jid w \<and> seen_ok jid w)"

definition is_Step :: "event \<Rightarrow> bool" where
  "is_Step ev = (case ev of Step pick e \<Rightarrow> True | _ \<Rightarrow> False)"

text \<open>
  \<open>ret_ok jid w\<close>: until the supervisor has returned with a final state the job is
  registered and not marked completed; afterwards it is either still registered, holding
  a cached snapshot, a completion time and a sleeping cleanup goroutine due one
  retention duration later, or it is gone and the retention duration has passed.
\<close>

definition ret_inv ::
  "string \<Rightarrow> ProcessingJob option \<Rightarrow> (time \<times> string) list \<Rightarrow> time \<Rightarrow> pc \<Rightarrow>
   ProcessingStatus \<Rightarrow> bool" where
  "ret_inv jid j sl now p st =
     ((\<forall>tc. CompletedAt st = Some tc \<longrightarrow> tc \<le> now) \<and>
      (if p = PReturned \<and> Status st \<noteq> ''running''
       then (\<exists>job t tc. j = Some job \<and> LastStatus job \<noteq> None \<and>
               job_CompletedAt job = Some t \<and> CompletedAt st = Some tc \<and> tc \<le> t \<and>
               (t + JobRetentionDuration, jid) \<in> set sl)
            \<or> (j = None \<and>
                (\<exists>tc. CompletedAt st = Some tc \<and> tc + JobRetentionDuration \<le> now))
       else (\<exists>job. j = Some job \<and> job_CompletedAt job = None)))"

definition ret_ok :: "string \<Rightarrow> world \<Rightarrow> bool" where
  "ret_ok jid w = ret_inv jid (job_of w jid) (sleepers w) (clock w) (pc w) (status w)"

definition kept_ok :: "string \<Rightarrow> world \<Rightarrow> bool" where
  "kept_ok jid w = (world_ok jid w \<and> ret_ok jid w)"

text \<open>How many sections a call of \<open>GetJobStatus\<close> has behind it after its lookup.\<close>

fun stage :: "reader \<Rightarrow> nat" where
  "stage (RLookedUp job) = 0"
| "stage (RReceived job st) = 1"
| "stage (RCached job st) = 2"
| "stage (RReturned res found) = 3"

text \<open>\<open>returning p\<close>: the supervisor has set its final state.\<close>

definition returning :: "pc \<Rightarrow> bool" where
  "returning p = (p = PSendFinal \<or> p = PMark \<or> p = PReturned)"

section \<open>Example inputs\<close>

text \<open>
  A listing with the given id and media URLs, and collaborators that answer a fetch
  with the given listings, serve every image except \<open>http://img/missing.jpg\<close>, and
  accept every file and every record.
\<close>

definition ex_listing :: "string \<Rightarrow> string list \<Rightarrow> SimplyRETSProperty" where
  "ex_listing lid urls =
     \<lparr>sr_ListingID = lid, sr_MLSNumber = ''1005192'',
      sr_Address = \<lparr>addr_Full = ''74434 East Sweet Bottom Br #18393'', addr_Unit = [],
                    addr_StreetNumber = ''74434'', addr_StreetName = ''East Sweet Bottom Br'',
                    addr_City = ''Houston'', addr_State = ''Texas'', addr_PostalCode = ''77096''\<rparr>,
      sr_ListPrice = 0,
      sr_Property = \<lparr>det_PropertyType = ''RES'', det_Style = [], det_YearBuilt = 1998,
                     det_Stories = 2, det_Area = 1043, det_LotSize = [], det_Bedrooms = 2,
                     det_Bathrooms = 0\<rparr>,
      sr_Photos = urls, sr_Remarks = []\<rparr>"

definition ex_env :: "SimplyRETSProperty list \<Rightarrow> env" where
  "ex_env listings =
     \<lparr>api = (\<lambda>limit. ApiResponse 200 (Inr listings)),
      image = (\<lambda>u. if u = ''http://img/missing.jpg'' then ImgResponse 404 []
                    else ImgResponse 200 ''image/jpeg''),
      fs_create = (\<lambda>f. None), fs_copy = (\<lambda>f. None), repo_Create = (\<lambda>p. None)\<rparr>"

definition ex_photos3 :: "string list" where
  "ex_photos3 = [''http://img/a.jpg'', ''http://img/missing.jpg'', ''http://img/c.jpg'']"

text \<open>
  Listings without media, eleven listing ids (one full batch and one more), \<open>n\<close>
  supervisor steps in a row with the same collaborators, collaborators whose fetch fails
  because the context was cancelled, and the process right after
  \<open>StartPropertyProcessing(ctx, "job-1", 25)\<close> at time 1000.
\<close>

definition ex_listings :: "string list \<Rightarrow> SimplyRETSProperty list" where
  "ex_listings ids = map (\<lambda>lid. ex_listing lid []) ids"

definition ex_ids11 :: "string list" where
  "ex_ids11 = [''L01'', ''L02'', ''L03'', ''L04'', ''L05'', ''L06'', ''L07'', ''L08'', ''L09'',
               ''L10'', ''L11'']"

definition ex_go :: "nat \<Rightarrow> env \<Rightarrow> event list" where
  "ex_go n e = replicate n (Step True e)"

definition ex_env_cancelled :: env where
  "ex_env_cancelled = (ex_env [])\<lparr>api := (\<lambda>limit. ApiTransportError ''context canceled'')\<rparr>"

definition ex_start :: world where
  "ex_start = StartPropertyProcessing ''job-1'' 25 (boot 1000)"

text \<open>
  Runs of that process. \<open>ex_world_done\<close>: one listing, the supervisor runs to its end,
  then 5 ns pass. \<open>ex_world_expired\<close>: the same, then the retention duration passes and
  the cleanup goroutine wakes. \<open>ex_world_queued\<close>: the supervisor has sent its first
  snapshot. \<open>ex_world_in_batch\<close>: the supervisor is inside the first batch when the
  context is cancelled. \<open>ex_world_cancel_after_fetch\<close>: \<open>CancelJob\<close> after the total
  is published, one supervisor step, then 5 ns pass. \<open>ex_world_cancel_in_batch\<close>:
  \<open>CancelJob\<close> while the batch is in flight, the \<open>select\<close> after the batch picks the
  send; \<open>ex_world_cancel_in_batch_done\<close>: the same, the \<open>select\<close> picks
  \<open>ctx.Done()\<close>. \<open>ex_world_cancel_between_batches\<close>: eleven listings,
  \<open>CancelJob\<close> after the first batch. \<open>ex_world_cancel_in_fetch\<close>: \<open>CancelJob\<close>
  while the fetch is in flight.
\<close>

definition ex_one :: env where
  "ex_one = ex_env (ex_listings [''L01''])"

definition ex_eleven :: env where
  "ex_eleven = ex_env (ex_listings ex_ids11)"

definition ex_world_done :: world where
  "ex_world_done = run (ex_go 11 ex_one @ [Tick 5]) ex_start"

definition ex_world_expired :: world where
  "ex_world_expired = run (ex_go 11 ex_one @ [Tick JobRetentionDuration, Wake 0]) ex_start"

definition ex_world_queued :: world where
  "ex_world_queued = run (ex_go 2 ex_one) ex_start"

definition ex_world_in_batch :: world where
  "ex_world_in_batch = run (ex_go 5 ex_one @ [Cancel]) ex_start"

definition ex_world_cancel_after_fetch :: world where
  "ex_world_cancel_after_fetch =
     run (ex_go 4 ex_one @ [CancelReq ''job-1''] @ ex_go 1 ex_one @ [Tick 5]) ex_start"

definition ex_world_cancel_in_batch :: world where
  "ex_world_cancel_in_batch =
     run (ex_go 5 ex_one @ [CancelReq ''job-1''] @ ex_go 3 ex_one) ex_start"

definition ex_world_cancel_in_batch_done :: world where
  "ex_world_cancel_in_batch_done =
     run (ex_go 5 ex_one @ [CancelReq ''job-1''] @ ex_go 2 ex_one @ [Step False ex_one] @
          ex_go 2 ex_one) ex_start"

definition ex_world_cancel_between_batches :: world where
  "ex_world_cancel_between_batches =
     run (ex_go 17 ex_eleven @ [CancelReq ''job-1''] @ ex_go 2 ex_eleven) ex_start"

definition ex_world_cancel_in_fetch :: world where
  "ex_world_cancel_in_fetch =
     run (ex_go 2 ex_env_cancelled @ [CancelReq ''job-1''] @ ex_go 2 ex_env_cancelled) ex_start"


definition ex_world_query_race :: world where
  "ex_world_query_race =
     run (ex_go 2 ex_one @ [Query ''job-1'', CancelReq ''job-1'', Read 0, Read 0, Read 0])
       ex_start"

definition ex_world_stale_cache :: world where
  "ex_world_stale_cache =
     run (ex_go 2 ex_one @ [Query ''job-1'', Read 0] @ ex_go 9 ex_one @ [Read 0]) ex_start"

section \<open>Properties of the converter\<close>

lemma nullString_Valid: "nsValid (nullString s) = (s \<noteq> [])"
  by (simp add: nullString_def)

lemma nullString_String: "nsString (nullString s) = s"
  by (simp add: nullString_def)

lemma nullInt32_Valid: "niValid (nullInt32 i) = (i \<noteq> 0)"
  by (simp add: nullInt32_def)

lemma nullInt32_Int32: "niInt32 (nullInt32 i) = word_of_int i"
  by (simp add: nullInt32_def)

lemma nullInt32_in_range:
  "- (2 ^ 31) \<le> i \<Longrightarrow> i < 2 ^ 31 \<Longrightarrow> sint (niInt32 (nullInt32 i)) = i"
  by (simp add: nullInt32_Int32 sint_sbintrunc' signed_take_bit_int_eq_self)

text \<open>
  C9. Conversion is a function of the external listing and the photo list alone. Each of
  the numeric optional fields (bedrooms, bathrooms, area, year built) is marked present
  exactly when the external value is not zero, and each of the string optional fields
  (lot size, property type, remarks, listing id, MLS number) exactly when the external
  string is not empty. An absent field is the invalid sentinel with a zero payload; a
  present numeric field carries the low 32 bits of the external value, a present string
  field the external string itself.
\<close>

theorem convertToProperty_optional_fields:
  "(let p = convertToProperty sp ph; d = sr_Property sp in
      niValid (Bedrooms p) = (det_Bedrooms d \<noteq> 0) \<and>
      niInt32 (Bedrooms p) = word_of_int (det_Bedrooms d) \<and>
      niValid (Bathrooms p) = (det_Bathrooms d \<noteq> 0) \<and>
      niInt32 (Bathrooms p) = word_of_int (det_Bathrooms d) \<and>
      niValid (SquareFeet p) = (det_Area d \<noteq> 0) \<and>
      niInt32 (SquareFeet p) = word_of_int (det_Area d) \<and>
      niValid (YearBuilt p) = (det_YearBuilt d \<noteq> 0) \<and>
      niInt32 (YearBuilt p) = word_of_int (det_YearBuilt d) \<and>
      nsValid (LotSize p) = (det_LotSize d \<noteq> []) \<and>
      nsString (LotSize p) = det_LotSize d \<and>
      nsValid (PropertyType p) = (det_PropertyType d \<noteq> []) \<and>
      nsString (PropertyType p) = det_PropertyType d \<and>
      nsValid (Description p) = (sr_Remarks sp \<noteq> []) \<and>
      nsString (Description p) = sr_Remarks sp \<and>
      nsValid (ExternalID p) = (sr_ListingID sp \<noteq> []) \<and>
      nsString (ExternalID p) = sr_ListingID sp \<and>
      nsValid (MLSNumber p) = (sr_MLSNumber sp \<noteq> []) \<and>
      nsString (MLSNumber p) = sr_MLSNumber sp)"
  by (simp add: Let_def convertToProperty_def nullString_Valid nullString_String
      nullInt32_Valid nullInt32_Int32)

section \<open>Properties of the media fetcher and of one listing\<close>

lemma show_int_digit:
  "show_int 0 = ''0''" "show_int 1 = ''1''" "show_int 2 = ''2''" "show_int 3 = ''3''"
  by (simp_all add: show_int_def digits.simps)

lemma show_int_404: "show_int 404 = ''404''"
  by (simp add: show_int_def digits.simps)






subsection \<open>Counting the results of a batch\<close>

lemma tally_closed_form:
  "tally rs st =
     st\<lparr>ProcessedCount := ProcessedCount st + int (length (filter (\<lambda>r. r = None) rs)),
        FailedCount := FailedCount st + int (length (filter (\<lambda>r. r \<noteq> None) rs))\<rparr>"
  by (induction rs arbitrary: st) auto

lemma tally_FailedCount:
  "FailedCount (tally rs st) = FailedCount st + int (length (filter (\<lambda>r. r \<noteq> None) rs))"
  by (simp add: tally_closed_form)

lemma tally_ProcessedCount:
  "ProcessedCount (tally rs st) = ProcessedCount st + int (length (filter (\<lambda>r. r = None) rs))"
  by (simp add: tally_closed_form)

lemma tally_sum:
  "ProcessedCount (tally rs st) + FailedCount (tally rs st) =
     ProcessedCount st + FailedCount st + int (length rs)"
proof -
  have "length (filter (\<lambda>r. r = None) rs) + length (filter (\<lambda>r. r \<noteq> None) rs) = length rs"
    using sum_length_filter_compl [of "\<lambda>r. r = None" rs] by simp
  then show ?thesis
    by (simp add: tally_FailedCount tally_ProcessedCount)
qed

lemma tally_other_fields:
  "Status (tally rs st) = Status st" "TotalProperties (tally rs st) = TotalProperties st"
  "StartedAt (tally rs st) = StartedAt st" "CompletedAt (tally rs st) = CompletedAt st"
  "ErrorMessage (tally rs st) = ErrorMessage st" "ID (tally rs st) = ID st"
  by (simp_all add: tally_closed_form)


text \<open>
  The listing of the spec's example: three media URLs, the second answers 404. The two
  other images are fetched and written, the listing is dropped, one failure is counted.
\<close>

lemma ex_partial_failure_run:
  "processProperty (ex_env []) False (ex_listing ''L1'' ex_photos3) =
     (Some (''failed to download images for property L1: '' @
            ''some images failed to download: image download returned status 404''),
      [HttpGet ''http://img/a.jpg'', OsCreate ''L1_0.jpg'', HttpGet ''http://img/missing.jpg'',
       HttpGet ''http://img/c.jpg'', OsCreate ''L1_2.jpg''])"
  by (simp add: ex_listing_def ex_env_def ex_photos3_def downloadTask_def downloadImage_def
      processProperty_def downloadImages_def show_int_404 show_int_digit enumerate_eq_zip
      upt_rec Let_def)


section \<open>The invariants hold along every run\<close>

lemma le_counts_refl: "le_counts s s"
  by (simp add: le_counts_def)

lemma le_counts_trans: "le_counts a b \<Longrightarrow> le_counts b c \<Longrightarrow> le_counts a c"
  by (auto simp: le_counts_def)

lemma fetchProperties_error_nonempty: "fetchProperties e l = Inl err \<Longrightarrow> err \<noteq> []"
  by (auto simp: fetchProperties_def split: api_outcome.splits if_splits sum.splits)

text \<open>Sending the current status keeps the history well formed.\<close>

lemma sup_ok_send:
  assumes "sup_ok w" "pc w \<noteq> PInit" "pc_ok nxt (length (properties w)) (status w)"
    "nxt \<noteq> PInit" "nxt \<noteq> PSendInitial" "nxt = PFetch \<longrightarrow> pc w = PSendInitial"
  shows "sup_ok (send_status w nxt)"
proof (cases "chan_send (chans w (sup_statusChan w)) (status w)")
  case (Sent c)
  have "sorted_wrt le_counts (published w @ [status w])"
    using assms(1) by (simp add: sup_ok_def Let_def sorted_wrt_append)
  then show ?thesis
    using assms Sent
    by (auto simp: send_status_def sup_ok_def Let_def le_counts_refl)
next
  case Blocked
  then show ?thesis using assms(1) by (simp add: send_status_def)
next
  case SendPanic
  then show ?thesis using assms(1) by (simp add: send_status_def sup_ok_def)
qed

lemma sup_ok_goto:
  assumes "sup_ok w" "pc w \<noteq> PInit" "pc_ok nxt (length (properties w)) (status w)"
    "nxt \<noteq> PInit" "nxt \<noteq> PSendInitial" "nxt = PFetch \<longrightarrow> pc w = PSendInitial"
  shows "sup_ok (w\<lparr>pc := nxt\<rparr>)"
  using assms by (auto simp: sup_ok_def Let_def)

lemma sup_ok_select:
  assumes "sup_ok w" "pc w \<noteq> PInit" "pc_ok nxt (length (properties w)) (status w)"
    "nxt \<noteq> PInit" "nxt \<noteq> PSendInitial" "nxt = PFetch \<longrightarrow> pc w = PSendInitial"
    "pc_ok nxt' (length (properties w)) (status w)"
    "nxt' \<noteq> PInit" "nxt' \<noteq> PSendInitial" "nxt' = PFetch \<longrightarrow> pc w = PSendInitial"
  shows "sup_ok (select_send pick w nxt nxt')"
  using sup_ok_send [OF assms(1-6)] sup_ok_goto [OF assms(1,2,7-10)] assms(1)
  by (simp add: select_send_def Let_def)

lemma le_counts_tally: "le_counts s st \<Longrightarrow> le_counts s (tally rs st)"
  by (simp add: le_counts_def tally_FailedCount tally_ProcessedCount)

lemma sup_ok_PInit: "sup_ok w \<Longrightarrow> pc w = PInit \<Longrightarrow> sup_ok (sup_step e pick w)"
  by (simp add: sup_step_def sup_ok_def initial_like_def snapshot_ok_def Let_def)

lemma sup_ok_PSendInitial:
  assumes "sup_ok w" "pc w = PSendInitial"
  shows "sup_ok (sup_step e pick w)"
proof -
  have "pc_ok PFetch (length (properties w)) (status w)"
    and "pc_ok PReturned (length (properties w)) (status w)"
    using assms by (simp_all add: sup_ok_def Let_def)
  then have "sup_ok (select_send pick w PFetch PReturned)"
    using assms by (intro sup_ok_select) simp_all
  then show ?thesis
    using assms(2) by (simp add: sup_step_def)
qed

lemma sup_ok_PFetch:
  assumes "sup_ok w" "pc w = PFetch"
  shows "sup_ok (sup_step e pick w)"
proof (cases "fetchProperties e (sup_limit w)")
  case (Inl err)
  then show ?thesis
    using assms fetchProperties_error_nonempty [OF Inl]
    by (auto simp: sup_step_def sup_ok_def Let_def final_like_def initial_like_def
        snapshot_ok_def le_counts_def)
next
  case (Inr props)
  then show ?thesis
    using assms
    by (auto simp: sup_step_def sup_ok_def Let_def final_like_def initial_like_def
        snapshot_ok_def le_counts_def)
qed

lemma sup_ok_PSendTotal:
  assumes "sup_ok w" "pc w = PSendTotal"
  shows "sup_ok (sup_step e pick w)"
proof -
  have "pc_ok (PLoop 0) (length (properties w)) (status w)"
    using assms by (simp add: sup_ok_def Let_def)
  then have "sup_ok (send_status w (PLoop 0))"
    using assms by (intro sup_ok_send) simp_all
  then show ?thesis
    using assms(2) by (simp add: sup_step_def)
qed

lemma sup_ok_PLoop:
  assumes "sup_ok w" "pc w = PLoop i"
  shows "sup_ok (sup_step e pick w)"
proof -
  have "i < length (properties w) \<Longrightarrow>
      i + length (take batchSize (drop i (properties w))) =
        min (i + batchSize) (length (properties w))"
    by (auto simp: min_def)
  then show ?thesis
    using assms
    by (auto simp: sup_step_def sup_ok_def Let_def final_like_def snapshot_ok_def le_counts_def)
qed

lemma sup_ok_PBatch:
  assumes "sup_ok w" "pc w = PBatch i pending results"
  shows "sup_ok (sup_step e pick w)"
proof (cases pending)
  case Nil
  have sum: "ProcessedCount (tally results (status w)) + FailedCount (tally results (status w)) =
     int (min (i + batchSize) (length (properties w)))"
    using assms Nil tally_sum [of results "status w"] by (simp add: sup_ok_def Let_def)
  have "snapshot_ok (length (properties w)) (tally results (status w))"
    using assms Nil sum
    by (simp add: sup_ok_def Let_def snapshot_ok_def tally_other_fields tally_FailedCount
        tally_ProcessedCount)
  then show ?thesis
    using assms Nil sum
    by (simp add: sup_step_def sup_ok_def Let_def tally_other_fields le_counts_tally)
next
  case (Cons p rest)
  then show ?thesis
    using assms
    by (auto simp: sup_step_def sup_ok_def Let_def split: prod.splits)
qed

lemma sup_ok_PBatchSend:
  assumes "sup_ok w" "pc w = PBatchSend i"
  shows "sup_ok (sup_step e pick w)"
proof -
  have "pc_ok (PLoop (i + batchSize)) (length (properties w)) (status w)"
    using assms by (simp add: sup_ok_def Let_def)
  then have "sup_ok (select_send pick w (PLoop (i + batchSize)) (PLoop (i + batchSize)))"
    using assms by (intro sup_ok_select) simp_all
  then show ?thesis
    using assms(2) by (simp add: sup_step_def)
qed

lemma sup_ok_PSendFinal:
  assumes "sup_ok w" "pc w = PSendFinal"
  shows "sup_ok (sup_step e pick w)"
proof -
  have "pc_ok PMark (length (properties w)) (status w)"
    using assms by (simp add: sup_ok_def Let_def)
  then have "sup_ok (send_status w PMark)"
    using assms by (intro sup_ok_send) simp_all
  then show ?thesis
    using assms(2) by (simp add: sup_step_def)
qed

lemma MarkJobCompleted_sup_fields:
  "pc (MarkJobCompleted jid st w) = pc w" "status (MarkJobCompleted jid st w) = status w"
  "properties (MarkJobCompleted jid st w) = properties w"
  "published (MarkJobCompleted jid st w) = published w"
  by (simp_all add: MarkJobCompleted_def split: option.splits)

lemma sup_ok_PMark: "sup_ok w \<Longrightarrow> pc w = PMark \<Longrightarrow> sup_ok (sup_step e pick w)"
  by (simp add: sup_step_def sup_ok_def Let_def MarkJobCompleted_sup_fields)

lemma sup_ok_sup_step: "sup_ok w \<Longrightarrow> sup_ok (sup_step e pick w)"
proof (cases "pc w")
  case PReturned
  assume "sup_ok w"
  then show ?thesis using PReturned by (simp add: sup_step_def)
qed (simp_all add: sup_ok_PInit sup_ok_PSendInitial sup_ok_PFetch sup_ok_PSendTotal sup_ok_PLoop
      sup_ok_PBatch sup_ok_PBatchSend sup_ok_PSendFinal sup_ok_PMark)

lemma GetJobStatus_step_frame:
  "pc (snd (GetJobStatus_step r w)) = pc w"
  "status (snd (GetJobStatus_step r w)) = status w"
  "properties (snd (GetJobStatus_step r w)) = properties w"
  "published (snd (GetJobStatus_step r w)) = published w"
  "calls (snd (GetJobStatus_step r w)) = calls w"
  "sup_ctx (snd (GetJobStatus_step r w)) = sup_ctx w"
  "sup_jobID (snd (GetJobStatus_step r w)) = sup_jobID w"
  "sup_statusChan (snd (GetJobStatus_step r w)) = sup_statusChan w"
  "jobs (snd (GetJobStatus_step r w)) = jobs w"
  "readers (snd (GetJobStatus_step r w)) = readers w"
  "sleepers (snd (GetJobStatus_step r w)) = sleepers w"
  "clock (snd (GetJobStatus_step r w)) = clock w"
  "cancelled (snd (GetJobStatus_step r w)) = cancelled w"
  by (cases r; simp add: GetJobStatus_step_def split: option.splits send_result.splits
      prod.splits)+

lemma step_Read:
  "step (Read k) w =
     (if k < length (readers w)
      then (snd (GetJobStatus_step (snd (readers w ! k)) w))
             \<lparr>readers := (readers w)[k := (fst (readers w ! k),
                                          fst (GetJobStatus_step (snd (readers w ! k)) w))]\<rparr>
      else w)"
  by (simp add: step_def split: prod.splits)

lemma step_frame:
  assumes "\<not> is_Step ev"
  shows "pc (step ev w) = pc w" "status (step ev w) = status w"
    "properties (step ev w) = properties w" "published (step ev w) = published w"
    "calls (step ev w) = calls w" "sup_ctx (step ev w) = sup_ctx w"
    "sup_jobID (step ev w) = sup_jobID w" "sup_statusChan (step ev w) = sup_statusChan w"
  using assms
  by (cases ev; simp add: is_Step_def step_Read GetJobStatus_step_frame;
      simp add: step_def RemoveJob_def CancelJob_def GetJob_def
      CleanupJob_def close_and_delete_def Let_def
      split: option.splits send_result.splits prod.splits)+

lemma sup_ok_frame:
  "pc w' = pc w \<Longrightarrow> status w' = status w \<Longrightarrow> properties w' = properties w \<Longrightarrow>
   published w' = published w \<Longrightarrow> sup_ok w' = sup_ok w"
  by (simp add: sup_ok_def)

lemma sup_ok_step: "sup_ok w \<Longrightarrow> sup_ok (step ev w)"
proof (cases "is_Step ev")
  case True
  assume "sup_ok w"
  then show ?thesis using True
    by (cases ev) (simp_all add: is_Step_def step_def sup_ok_sup_step)
next
  case False
  assume "sup_ok w"
  then show ?thesis
    using sup_ok_frame [of "step ev w" w] step_frame [OF False] by simp
qed

lemma run_induct_inv:
  assumes "\<And>ev w. P w \<Longrightarrow> P (step ev w)" "P w"
  shows "P (run evs w)"
  using assms(2) by (induction evs arbitrary: w) (simp_all add: assms(1))

lemma sup_ok_start: "sup_ok (StartPropertyProcessing jid limit (boot t))"
  by (simp add: sup_ok_def StartPropertyProcessing_def boot_def AddJob_def)

lemma run_induct_events:
  assumes "\<And>ev w. ev \<in> set evs \<Longrightarrow> P w \<Longrightarrow> P (step ev w)" "P w"
  shows "P (run evs w)"
  using assms by (induction evs arbitrary: w) simp_all

lemma sup_ok_run: "sup_ok (run evs (StartPropertyProcessing jid limit (boot t)))"
  by (rule run_induct_inv) (simp_all add: sup_ok_step sup_ok_start)

lemma reg_inv_registered: "reg_inv jid js c \<Longrightarrow> js k = Some job \<Longrightarrow> k = jid"
  unfolding reg_inv_def by (metis option.distinct(1))

lemma reader_ok_None: "reader_ok j r \<Longrightarrow> reader_ok None r"
  by (cases r) simp_all

lemma readers_inv_delete: "readers_inv js rs \<Longrightarrow> readers_inv (js(k := None)) rs"
  by (auto simp: readers_inv_def reader_ok_None)

lemma readers_inv_append:
  "readers_inv js rs \<Longrightarrow> reader_ok (js k) r \<Longrightarrow> readers_inv js (rs @ [(k, r)])"
  by (simp add: readers_inv_def)

lemma readers_inv_nth: "readers_inv js rs \<Longrightarrow> i < length rs \<Longrightarrow> reader_ok (js (fst (rs ! i))) (snd (rs ! i))"
  by (simp add: readers_inv_def)

lemma readers_inv_update:
  assumes "readers_inv js rs" "reader_ok (js k) r"
  shows "readers_inv js (rs[i := (k, r)])"
proof -
  have "set (rs[i := (k, r)]) \<subseteq> insert (k, r) (set rs)"
    by (rule set_update_subset_insert)
  then show ?thesis
    using assms unfolding readers_inv_def by auto
qed

lemma reg_ok_cong:
  assumes "sup_jobID w' = sup_jobID w" "sup_statusChan w' = sup_statusChan w"
    "sup_ctx w' = sup_ctx w" "job_Status (heap w' 0) = job_Status (heap w 0)"
    "job_Cancel (heap w' 0) = job_Cancel (heap w 0)" "panic w' = panic w" "jobs w' = jobs w"
    "readers w' = readers w" "chans w' 0 = chans w 0"
  shows "reg_ok jid w' = reg_ok jid w"
  using assms by (simp add: reg_ok_def)

lemma reg_ok_registered:
  assumes "reg_ok jid w" "jobs w k = Some job"
  shows "k = jid" "job = 0" "job_Status (heap w job) = 0" "job_Cancel (heap w job) = 0"
    "\<not> closed (chans w 0)" "cap (chans w 0) = 100" "length (buf (chans w 0)) \<le> 100"
    "panic w = None"
proof -
  have r: "reg_inv jid (jobs w) (chans w 0)" using assms(1) by (simp add: reg_ok_def)
  show k: "k = jid" using r assms(2) by (rule reg_inv_registered)
  have "jobs w jid = Some job" using assms(2) k by simp
  then show j: "job = 0" and c: "\<not> closed (chans w 0)"
    using r unfolding reg_inv_def by blast+
  show "job_Status (heap w job) = 0" "job_Cancel (heap w job) = 0"
    using assms(1) j by (simp_all add: reg_ok_def)
  show "cap (chans w 0) = 100" "length (buf (chans w 0)) \<le> 100"
    using r unfolding reg_inv_def by blast+
  show "panic w = None"
    using assms(1) c by (auto simp: reg_ok_def)
qed

lemma reg_ok_chan:
  assumes "reg_ok jid w"
  shows "cap (chans w 0) = 100" "length (buf (chans w 0)) \<le> 100"
    "job_Status (heap w 0) = 0" "job_Cancel (heap w 0) = 0"
  using assms by (simp_all add: reg_ok_def reg_inv_def)

lemma reg_ok_MarkJobCompleted: "reg_ok jid w \<Longrightarrow> reg_ok jid (MarkJobCompleted k st w)"
proof (cases "jobs w k")
  case None
  assume "reg_ok jid w"
  then show ?thesis using None by (simp add: MarkJobCompleted_def)
next
  case (Some job)
  assume a: "reg_ok jid w"
  have "reg_ok jid (MarkJobCompleted k st w) = reg_ok jid w"
    using Some reg_ok_registered(2) [OF a Some]
    by (intro reg_ok_cong) (simp_all add: MarkJobCompleted_def)
  then show ?thesis using a by simp
qed

lemma reg_ok_chan_update:
  assumes "reg_ok jid w" "cap c = 100" "length (buf c) \<le> 100" "closed c = closed (chans w 0)"
  shows "reg_ok jid (w\<lparr>chans := (chans w)(0 := c)\<rparr>)"
  using assms by (simp add: reg_ok_def reg_inv_def)

lemma reg_ok_panic:
  assumes "reg_ok jid w" "closed (chans w 0)"
  shows "reg_ok jid (w\<lparr>panic := p\<rparr>)"
  using assms by (simp add: reg_ok_def)

lemma reg_ok_heap_update:
  assumes "reg_ok jid w" "job_Status j' = job_Status (heap w a)" "job_Cancel j' = job_Cancel (heap w a)"
  shows "reg_ok jid (w\<lparr>heap := (heap w)(a := j')\<rparr>)"
  using assms by (simp add: reg_ok_def)

lemma reg_ok_GetJobStatus_step:
  assumes "reg_ok jid w" "reader_ok j r"
  shows "reg_ok jid (snd (GetJobStatus_step r w))" "reader_ok j (fst (GetJobStatus_step r w))"
proof -
  note c = reg_ok_chan [OF assms(1)]
  have "reg_ok jid (snd (GetJobStatus_step r w)) \<and> reader_ok j (fst (GetJobStatus_step r w))"
  proof (cases r)
    case (RLookedUp job)
    then have j: "job = 0" using assms(2) by simp
    show ?thesis
    proof (cases "LastStatus (heap w 0)")
      case (Some s)
      then show ?thesis using assms(1) RLookedUp j by (simp add: GetJobStatus_step_def)
    next
      case None
      show ?thesis
      proof (cases "buf (chans w 0)")
        case Nil
        then show ?thesis
          using assms(1) RLookedUp j None c reg_ok_chan_update [OF assms(1), of "chans w 0"]
          by (simp add: GetJobStatus_step_def chan_recv_def)
      next
        case (Cons v vs)
        then show ?thesis
          using assms(1) RLookedUp j None c
            reg_ok_chan_update [OF assms(1), of "(chans w 0)\<lparr>buf := vs\<rparr>"]
          by (simp add: GetJobStatus_step_def chan_recv_def)
      qed
    qed
  next
    case (RReceived job st)
    then show ?thesis
      using assms reg_ok_heap_update [OF assms(1), of "(heap w job)\<lparr>LastStatus := Some st\<rparr>" job]
      by (simp add: GetJobStatus_step_def)
  next
    case (RCached job st)
    then have j: "job = 0" using assms(2) by simp
    show ?thesis
    proof (cases "closed (chans w 0)")
      case True
      then show ?thesis
        using RCached j c reg_ok_panic [OF assms(1) True]
        by (simp add: GetJobStatus_step_def chan_send_def)
    next
      case False
      then show ?thesis
        using assms(1) RCached j c
          reg_ok_chan_update [OF assms(1), of "(chans w 0)\<lparr>buf := buf (chans w 0) @ [st]\<rparr>"]
        by (simp add: GetJobStatus_step_def chan_send_def)
    qed
  next
    case (RReturned res found)
    then show ?thesis using assms by (simp add: GetJobStatus_step_def)
  qed
  then show "reg_ok jid (snd (GetJobStatus_step r w))"
    "reader_ok j (fst (GetJobStatus_step r w))" by simp_all
qed

lemma reg_ok_readers_update:
  assumes "reg_ok jid w" "readers_inv (jobs w) rs"
  shows "reg_ok jid (w\<lparr>readers := rs\<rparr>)"
  using assms by (simp add: reg_ok_def)

lemma reg_ok_Read: assumes "reg_ok jid w" shows "reg_ok jid (step (Read i) w)"
proof (cases "i < length (readers w)")
  case False
  then show ?thesis using assms by (simp add: step_Read)
next
  case True
  define k where "k = fst (readers w ! i)"
  define r where "r = snd (readers w ! i)"
  define w' where "w' = snd (GetJobStatus_step r w)"
  define r' where "r' = fst (GetJobStatus_step r w)"
  have ri: "readers_inv (jobs w) (readers w)" using assms by (simp add: reg_ok_def)
  have ok: "reader_ok (jobs w k) r"
    using readers_inv_nth [OF ri True] by (simp add: k_def r_def)
  have 1: "reg_ok jid w'" and 2: "reader_ok (jobs w k) r'"
    using reg_ok_GetJobStatus_step [OF assms ok] by (simp_all add: w'_def r'_def)
  have "readers_inv (jobs w') ((readers w)[i := (k, r')])"
    using ri 2 by (simp add: w'_def GetJobStatus_step_frame readers_inv_update)
  then have "reg_ok jid (w'\<lparr>readers := (readers w)[i := (k, r')]\<rparr>)"
    using 1 by (rule reg_ok_readers_update [rotated])
  then show ?thesis
    using True by (simp add: step_Read w'_def r'_def k_def r_def)
qed

lemma reg_ok_Query: assumes "reg_ok jid w" shows "reg_ok jid (step (Query k) w)"
proof -
  have ri: "readers_inv (jobs w) (readers w)" using assms by (simp add: reg_ok_def)
  have "reader_ok (jobs w k) (GetJobStatus_lookup k w)"
  proof (cases "jobs w k")
    case None
    then show ?thesis by (simp add: GetJobStatus_lookup_def GetJob_def)
  next
    case (Some job)
    then show ?thesis
      using reg_ok_registered(2) [OF assms Some]
      by (simp add: GetJobStatus_lookup_def GetJob_def)
  qed
  then have "readers_inv (jobs w) (readers w @ [(k, GetJobStatus_lookup k w)])"
    using ri by (simp add: readers_inv_append)
  then show ?thesis
    using reg_ok_readers_update [OF assms] by (simp add: step_def)
qed

lemma reg_ok_close_and_delete:
  assumes "reg_ok jid w" "jobs w k = Some job"
  shows "reg_ok jid (close_and_delete k job w)"
proof -
  note r = reg_ok_registered [OF assms]
  have ri: "readers_inv ((jobs w)(k := None)) (readers w)"
    using assms(1) by (simp add: reg_ok_def readers_inv_delete)
  show ?thesis
    using assms(1) r ri by (simp add: close_and_delete_def reg_ok_def reg_inv_def)
qed

lemma reg_ok_RemoveJob: "reg_ok jid w \<Longrightarrow> reg_ok jid (RemoveJob k w)"
  by (cases "jobs w k") (simp_all add: RemoveJob_def reg_ok_close_and_delete)

lemma reg_ok_CleanupJob: "reg_ok jid w \<Longrightarrow> reg_ok jid (CleanupJob k w)"
  by (cases "jobs w k")
    (simp_all add: CleanupJob_def reg_ok_close_and_delete split: option.splits)

lemma reg_ok_CancelJob: assumes "reg_ok jid w" shows "reg_ok jid (snd (CancelJob k w))"
proof (cases "jobs w k")
  case None
  then show ?thesis using assms by (simp add: CancelJob_def GetJob_def)
next
  case (Some job)
  have "reg_ok jid (w\<lparr>cancelled := (cancelled w)(job_Cancel (heap w job) := True)\<rparr>)"
    using assms by (simp add: reg_ok_def)
  then show ?thesis
    using Some by (simp add: CancelJob_def GetJob_def reg_ok_RemoveJob)
qed

lemma reg_ok_send_status: assumes "reg_ok jid w" shows "reg_ok jid (send_status w nxt)"
proof -
  have s: "sup_statusChan w = 0" using assms by (simp add: reg_ok_def)
  note c = reg_ok_chan [OF assms]
  show ?thesis
  proof (cases "closed (chans w 0)")
    case True
    then show ?thesis
      using s reg_ok_panic [OF assms True] by (simp add: send_status_def chan_send_def)
  next
    case False
    have "reg_ok jid (w\<lparr>chans := (chans w)(0 := (chans w 0)\<lparr>buf := buf (chans w 0) @ [status w]\<rparr>)\<rparr>)"
      if "length (buf (chans w 0)) < cap (chans w 0)"
      using that c by (intro reg_ok_chan_update [OF assms]) simp_all
    then show ?thesis
      using False s assms by (simp add: send_status_def chan_send_def) (simp add: reg_ok_def)
  qed
qed

lemma reg_ok_goto: "reg_ok jid (w\<lparr>pc := p\<rparr>) = reg_ok jid w"
  by (simp add: reg_ok_def)

lemma reg_ok_select_send: "reg_ok jid w \<Longrightarrow> reg_ok jid (select_send pick w a b)"
  using reg_ok_send_status [of jid w a]
  by (simp add: select_send_def Let_def reg_ok_goto)

lemma reg_ok_sup_step:
  assumes "reg_ok jid w"
  shows "reg_ok jid (sup_step e pick w)"
proof (cases "pc w")
  case PMark
  then show ?thesis
    using reg_ok_MarkJobCompleted [OF assms, of "sup_jobID w" "status w"]
    by (simp add: sup_step_def) (simp add: reg_ok_def)
next
  case (PBatch i pending results)
  then show ?thesis
    using assms by (simp add: sup_step_def reg_ok_def split: list.splits prod.splits)
next
  case PFetch
  then show ?thesis
    using assms by (simp add: sup_step_def reg_ok_def split: sum.splits)
next
  case (PLoop i)
  then show ?thesis
    using assms by (simp add: sup_step_def reg_ok_def)
next
  case PInit
  then show ?thesis
    using assms by (simp add: sup_step_def reg_ok_def)
qed (use assms in \<open>simp_all add: sup_step_def reg_ok_select_send reg_ok_send_status\<close>)

lemma reg_ok_step: "reg_ok jid w \<Longrightarrow> reg_ok jid (step ev w)"
proof (cases ev)
  case (Wake k)
  assume a: "reg_ok jid w"
  then have "reg_ok jid (w\<lparr>sleepers := take k (sleepers w) @ drop (Suc k) (sleepers w)\<rparr>)"
    by (simp add: reg_ok_def)
  then show ?thesis
    using a Wake by (simp add: step_def reg_ok_CleanupJob)
next
  case Cancel
  assume "reg_ok jid w"
  then show ?thesis using Cancel by (simp add: step_def reg_ok_def)
next
  case (Tick d)
  assume "reg_ok jid w"
  then show ?thesis using Tick by (simp add: step_def reg_ok_def)
next
  case (Read k)
  assume "reg_ok jid w"
  then show ?thesis using Read by (simp add: reg_ok_Read)
next
  case (Query k)
  assume "reg_ok jid w"
  then show ?thesis using Query by (simp add: reg_ok_Query)
qed (simp_all add: step_def reg_ok_sup_step reg_ok_RemoveJob reg_ok_CancelJob)

lemma reg_ok_start: "reg_ok jid (StartPropertyProcessing jid limit (boot t))"
  by (simp add: reg_ok_def reg_inv_def readers_inv_def StartPropertyProcessing_def boot_def
      AddJob_def make_chan_def)

lemma reg_ok_run: "reg_ok jid (run evs (StartPropertyProcessing jid limit (boot t)))"
  by (rule run_induct_inv) (simp_all add: reg_ok_step reg_ok_start)

lemma seen_inv_local:
  "seen_inv q pub cl rs j p st \<Longrightarrow> p \<noteq> PReturned \<Longrightarrow> seen_inv q pub cl rs j p' st'"
  by (auto simp: seen_inv_def)

lemma seen_inv_send:
  "seen_inv q pub cl rs j p st \<Longrightarrow> p \<noteq> PReturned \<Longrightarrow>
   seen_inv (q @ [st]) (pub @ [st]) cl rs j p' st'"
  by (auto simp: seen_inv_def)

lemma seen_inv_unregistered:
  "seen_inv q pub cl rs j p st \<Longrightarrow> seen_inv q pub True rs None p' st'"
  by (auto simp: seen_inv_def)

lemma seen_inv_drop_job:
  "seen_inv q pub cl rs j p st \<Longrightarrow> seen_inv q pub cl rs None p' st'"
  by (auto simp: seen_inv_def)

lemma seen_inv_readers_update:
  assumes "seen_inv q pub cl rs j p st" "\<forall>s. reader_holds r = Some s \<longrightarrow> s \<in> set pub \<or> cl"
  shows "seen_inv q pub cl (rs[i := (k, r)]) j p st"
proof -
  have "set (rs[i := (k, r)]) \<subseteq> insert (k, r) (set rs)"
    by (rule set_update_subset_insert)
  then show ?thesis
    using assms unfolding seen_inv_def by auto
qed

lemma seen_inv_readers_append:
  assumes "seen_inv q pub cl rs j p st" "reader_holds r = None"
  shows "seen_inv q pub cl (rs @ [(k, r)]) j p st"
  using assms unfolding seen_inv_def by auto

lemma seen_inv_held:
  assumes "seen_inv q pub cl rs j p st" "i < length rs" "reader_holds (snd (rs ! i)) = Some s"
  shows "s \<in> set pub \<or> cl"
  using assms unfolding seen_inv_def by (metis nth_mem)

lemma seen_inv_queue:
  assumes "seen_inv q pub cl rs j p st" "q' = q \<or> (\<exists>v. q = v # q')"
  shows "seen_inv q' pub cl rs j p st"
  using assms unfolding seen_inv_def by auto

lemma seen_inv_requeue:
  assumes "seen_inv q pub cl rs j p st" "s \<in> set pub"
  shows "seen_inv (q @ [s]) pub cl rs j p st"
  using assms unfolding seen_inv_def by auto

lemma seen_inv_cache:
  assumes "seen_inv q pub cl rs j p st" "j' = None \<or> (\<exists>s. LastStatus (the j') = Some s \<and> s \<in> set pub)"
  shows "seen_inv q pub cl rs j' p st"
  using assms unfolding seen_inv_def by auto

lemma job_of_simps [simp]:
  "job_of (w\<lparr>pc := a\<rparr>) = job_of w" "job_of (w\<lparr>status := b\<rparr>) = job_of w"
  "job_of (w\<lparr>chans := c\<rparr>) = job_of w" "job_of (w\<lparr>published := d\<rparr>) = job_of w"
  "job_of (w\<lparr>panic := e\<rparr>) = job_of w" "job_of (w\<lparr>sleepers := f\<rparr>) = job_of w"
  "job_of (w\<lparr>cancelled := g\<rparr>) = job_of w" "job_of (w\<lparr>clock := h\<rparr>) = job_of w"
  "job_of (w\<lparr>readers := i\<rparr>) = job_of w" "job_of (w\<lparr>calls := j\<rparr>) = job_of w"
  "job_of (w\<lparr>properties := k\<rparr>) = job_of w"
  by (simp_all add: job_of_def fun_eq_iff)

lemma seen_ok_send_status:
  assumes "seen_ok jid w" "reg_ok jid w" "pc w \<noteq> PReturned"
  shows "seen_ok jid (send_status w nxt)"
proof (cases "chan_send (chans w (sup_statusChan w)) (status w)")
  case (Sent c)
  then have c: "c = (chans w 0)\<lparr>buf := buf (chans w 0) @ [status w]\<rparr>"
    using assms(2) by (auto simp: chan_send_def reg_ok_def split: if_splits)
  show ?thesis
    using assms Sent seen_inv_send [of "buf (chans w 0)" "published w" "closed (chans w 0)"
        "readers w" "job_of w jid" "pc w" "status w" nxt "status w"]
    by (simp add: send_status_def seen_ok_def c reg_ok_def job_of_simps)
next
  case Blocked
  then show ?thesis using assms(1) by (simp add: send_status_def)
next
  case SendPanic
  then show ?thesis using assms(1) by (simp add: send_status_def seen_ok_def job_of_simps)
qed

lemma seen_ok_goto:
  "seen_ok jid w \<Longrightarrow> pc w \<noteq> PReturned \<Longrightarrow> seen_ok jid (w\<lparr>pc := nxt\<rparr>)"
  using seen_inv_local [of "buf (chans w 0)" "published w" "closed (chans w 0)" "readers w"
      "job_of w jid" "pc w" "status w" nxt "status w"]
  by (simp add: seen_ok_def job_of_simps)

lemma seen_ok_select_send:
  "seen_ok jid w \<Longrightarrow> reg_ok jid w \<Longrightarrow> pc w \<noteq> PReturned \<Longrightarrow>
   seen_ok jid (select_send pick w a b)"
  by (simp add: select_send_def Let_def seen_ok_send_status seen_ok_goto)

lemma seen_ok_MarkJobCompleted:
  assumes "seen_ok jid w" "reg_ok jid w" "pc w \<noteq> PReturned"
  shows "seen_ok jid ((MarkJobCompleted (sup_jobID w) (status w) w)\<lparr>pc := PReturned\<rparr>)"
proof (cases "jobs w jid")
  case None
  then show ?thesis
    using assms seen_inv_local [of "buf (chans w 0)" "published w" "closed (chans w 0)"
        "readers w" "job_of w jid" "pc w" "status w" PReturned "status w"]
    by (simp add: MarkJobCompleted_def seen_ok_def reg_ok_def job_of_simps)
next
  case (Some job)
  have "seen_inv (buf (chans w 0)) (published w) (closed (chans w 0)) (readers w) None
      PReturned (status w)"
    using assms(1) unfolding seen_ok_def by (rule seen_inv_drop_job)
  then show ?thesis
    using assms(2) Some
    by (simp add: MarkJobCompleted_def seen_ok_def reg_ok_def seen_inv_def job_of_def)
qed

lemma seen_ok_sup_step:
  assumes "seen_ok jid w" "reg_ok jid w"
  shows "seen_ok jid (sup_step e pick w)"
proof (cases "pc w")
  case PReturned
  then show ?thesis using assms(1) by (simp add: sup_step_def)
next
  case PMark
  then show ?thesis
    using seen_ok_MarkJobCompleted [OF assms] by (simp add: sup_step_def)
next
  case (PBatch i pending results)
  then show ?thesis
    using assms(1) seen_inv_local [of "buf (chans w 0)" "published w" "closed (chans w 0)"
        "readers w" "job_of w jid" "pc w" "status w"]
    by (simp add: sup_step_def seen_ok_def job_of_simps split: list.splits prod.splits)
next
  case PFetch
  then show ?thesis
    using assms(1) seen_inv_local [of "buf (chans w 0)" "published w" "closed (chans w 0)"
        "readers w" "job_of w jid" "pc w" "status w"]
    by (simp add: sup_step_def seen_ok_def job_of_simps split: sum.splits)
next
  case (PLoop i)
  then show ?thesis
    using assms(1) seen_inv_local [of "buf (chans w 0)" "published w" "closed (chans w 0)"
        "readers w" "job_of w jid" "pc w" "status w"]
    by (simp add: sup_step_def seen_ok_def job_of_simps)
next
  case PInit
  then show ?thesis
    using assms(1) seen_inv_local [of "buf (chans w 0)" "published w" "closed (chans w 0)"
        "readers w" "job_of w jid" "pc w" "status w"]
    by (simp add: sup_step_def seen_ok_def job_of_simps)
qed (use assms in \<open>simp_all add: sup_step_def seen_ok_select_send seen_ok_send_status\<close>)

lemma close_and_delete_seen:
  assumes "seen_ok jid w" "reg_ok jid w" "jobs w k = Some job"
  shows "seen_ok jid (close_and_delete k job w)"
proof -
  note r = reg_ok_registered [OF assms(2,3)]
  show ?thesis
    using assms(1) r(1,2,3,5)
      seen_inv_unregistered [of "buf (chans w 0)" "published w" "closed (chans w 0)"
        "readers w" "job_of w jid" "pc w" "status w" "pc w" "status w"]
    by (simp add: close_and_delete_def seen_ok_def job_of_def)
qed

lemma seen_ok_RemoveJob: "seen_ok jid w \<Longrightarrow> reg_ok jid w \<Longrightarrow> seen_ok jid (RemoveJob k w)"
  by (cases "jobs w k") (simp_all add: RemoveJob_def close_and_delete_seen)

lemma seen_ok_CleanupJob: "seen_ok jid w \<Longrightarrow> reg_ok jid w \<Longrightarrow> seen_ok jid (CleanupJob k w)"
  by (cases "jobs w k") (simp_all add: CleanupJob_def close_and_delete_seen split: option.splits)

lemma seen_ok_CancelJob:
  assumes "seen_ok jid w" "reg_ok jid w"
  shows "seen_ok jid (snd (CancelJob k w))"
proof (cases "jobs w k")
  case None
  then show ?thesis using assms(1) by (simp add: CancelJob_def GetJob_def)
next
  case (Some job)
  have "seen_ok jid (w\<lparr>cancelled := (cancelled w)(job_Cancel (heap w job) := True)\<rparr>)"
    and "reg_ok jid (w\<lparr>cancelled := (cancelled w)(job_Cancel (heap w job) := True)\<rparr>)"
    using assms by (simp_all add: seen_ok_def reg_ok_def job_of_simps)
  then show ?thesis
    using Some by (simp add: CancelJob_def GetJob_def seen_ok_RemoveJob)
qed

lemma seen_ok_cong:
  assumes "buf (chans w' 0) = buf (chans w 0)" "published w' = published w"
    "closed (chans w' 0) = closed (chans w 0)" "readers w' = readers w"
    "job_of w' jid = job_of w jid" "pc w' = pc w" "status w' = status w"
  shows "seen_ok jid w' = seen_ok jid w"
  using assms by (simp add: seen_ok_def)

lemma seen_ok_GetJobStatus_step:
  assumes "seen_ok jid w" "reg_ok jid w" "reader_ok j r"
    "\<forall>s. reader_holds r = Some s \<longrightarrow> s \<in> set (published w) \<or> closed (chans w 0)"
  shows "seen_ok jid (snd (GetJobStatus_step r w))"
    "\<forall>s. reader_holds (fst (GetJobStatus_step r w)) = Some s \<longrightarrow>
         s \<in> set (published w) \<or> closed (chans w 0)"
proof -
  note c = reg_ok_chan [OF assms(2)]
  note inv = assms(1) [unfolded seen_ok_def]
  have "seen_ok jid (snd (GetJobStatus_step r w)) \<and>
    (\<forall>s. reader_holds (fst (GetJobStatus_step r w)) = Some s \<longrightarrow>
         s \<in> set (published w) \<or> closed (chans w 0))"
  proof (cases r)
    case (RLookedUp job)
    then have j: "job = 0" using assms(3) by simp
    show ?thesis
    proof (cases "LastStatus (heap w 0)")
      case (Some s)
      then show ?thesis using assms(1) RLookedUp j by (simp add: GetJobStatus_step_def)
    next
      case None
      show ?thesis
      proof (cases "buf (chans w 0)")
        case Nil
        have "seen_ok jid (w\<lparr>chans := (chans w)(0 := chans w 0)\<rparr>) = seen_ok jid w"
          by (intro seen_ok_cong) (simp_all add: job_of_simps)
        then show ?thesis
          using assms(1) RLookedUp j None c Nil
          by (simp add: GetJobStatus_step_def chan_recv_def)
      next
        case (Cons v vs)
        have "seen_inv vs (published w) (closed (chans w 0)) (readers w) (job_of w jid)
            (pc w) (status w)"
          using inv Cons by (intro seen_inv_queue [OF inv]) simp
        moreover have "v \<in> set (published w)"
          using inv Cons by (simp add: seen_inv_def)
        ultimately show ?thesis
          using RLookedUp j None c Cons
          by (simp add: GetJobStatus_step_def chan_recv_def seen_ok_def job_of_simps)
      qed
    qed
  next
    case (RReceived job st)
    then have j: "job = 0" using assms(3) by simp
    define w' where "w' = w\<lparr>heap := (heap w)(0 := (heap w 0)\<lparr>LastStatus := Some st\<rparr>)\<rparr>"
    have h: "st \<in> set (published w) \<or> closed (chans w 0)"
      using assms(4) RReceived by simp
    have "job_of w' jid = None \<or>
        (\<exists>s. LastStatus (the (job_of w' jid)) = Some s \<and> s \<in> set (published w))"
    proof (cases "jobs w jid")
      case None
      then show ?thesis by (simp add: job_of_def w'_def)
    next
      case (Some p)
      note r = reg_ok_registered [OF assms(2) Some]
      show ?thesis
        using Some r(2,5) h by (simp add: job_of_def w'_def)
    qed
    then have "seen_inv (buf (chans w 0)) (published w) (closed (chans w 0)) (readers w)
        (job_of w' jid) (pc w) (status w)"
      by (rule seen_inv_cache [OF inv])
    then have "seen_ok jid w'"
      by (simp add: seen_ok_def w'_def)
    then show ?thesis
      using RReceived j h by (simp add: GetJobStatus_step_def w'_def)
  next
    case (RCached job st)
    then have j: "job = 0" using assms(3) by simp
    have h: "st \<in> set (published w) \<or> closed (chans w 0)"
      using assms(4) RCached by simp
    show ?thesis
    proof (cases "closed (chans w 0)")
      case True
      then show ?thesis
        using RCached j c assms(1)
        by (simp add: GetJobStatus_step_def chan_send_def seen_ok_def job_of_simps)
    next
      case False
      then have "seen_inv (buf (chans w 0) @ [st]) (published w) (closed (chans w 0))
          (readers w) (job_of w jid) (pc w) (status w)"
        using h by (intro seen_inv_requeue [OF inv]) simp
      then show ?thesis
        using False RCached j c assms(1)
        by (simp add: GetJobStatus_step_def chan_send_def seen_ok_def job_of_simps)
    qed
  next
    case (RReturned res found)
    then show ?thesis using assms(1) by (simp add: GetJobStatus_step_def)
  qed
  then show "seen_ok jid (snd (GetJobStatus_step r w))"
    "\<forall>s. reader_holds (fst (GetJobStatus_step r w)) = Some s \<longrightarrow>
         s \<in> set (published w) \<or> closed (chans w 0)" by simp_all
qed

lemma GetJobStatus_step_closed:
  "closed (chans (snd (GetJobStatus_step r w)) a) = closed (chans w a)"
  by (cases r)
    (simp_all add: GetJobStatus_step_def chan_recv_def chan_send_def
      split: option.splits list.splits)

lemma seen_ok_Read:
  assumes "seen_ok jid w" "reg_ok jid w"
  shows "seen_ok jid (step (Read i) w)"
proof (cases "i < length (readers w)")
  case False
  then show ?thesis using assms(1) by (simp add: step_Read)
next
  case True
  define k where "k = fst (readers w ! i)"
  define r where "r = snd (readers w ! i)"
  define w' where "w' = snd (GetJobStatus_step r w)"
  define r' where "r' = fst (GetJobStatus_step r w)"
  have ri: "readers_inv (jobs w) (readers w)" using assms(2) by (simp add: reg_ok_def)
  have ok: "reader_ok (jobs w k) r"
    using readers_inv_nth [OF ri True] by (simp add: k_def r_def)
  have held: "\<forall>s. reader_holds r = Some s \<longrightarrow> s \<in> set (published w) \<or> closed (chans w 0)"
    using seen_inv_held [OF assms(1) [unfolded seen_ok_def] True] by (simp add: r_def)
  have 1: "seen_ok jid w'"
    and 2: "\<forall>s. reader_holds r' = Some s \<longrightarrow> s \<in> set (published w') \<or> closed (chans w' 0)"
    using seen_ok_GetJobStatus_step [OF assms ok held]
    by (simp_all add: w'_def r'_def GetJobStatus_step_frame GetJobStatus_step_closed)
  have "seen_inv (buf (chans w' 0)) (published w') (closed (chans w' 0))
      ((readers w')[i := (k, r')]) (job_of w' jid) (pc w') (status w')"
    using 1 [unfolded seen_ok_def] 2 by (rule seen_inv_readers_update)
  then have "seen_ok jid (w'\<lparr>readers := (readers w)[i := (k, r')]\<rparr>)"
    by (simp add: seen_ok_def job_of_simps w'_def GetJobStatus_step_frame)
  then show ?thesis
    using True by (simp add: step_Read w'_def r'_def k_def r_def)
qed

lemma seen_ok_Query:
  assumes "seen_ok jid w"
  shows "seen_ok jid (step (Query k) w)"
proof -
  have "reader_holds (GetJobStatus_lookup k w) = None"
    by (simp add: GetJobStatus_lookup_def split: option.splits)
  then have "seen_inv (buf (chans w 0)) (published w) (closed (chans w 0))
      (readers w @ [(k, GetJobStatus_lookup k w)]) (job_of w jid) (pc w) (status w)"
    by (rule seen_inv_readers_append [OF assms [unfolded seen_ok_def]])
  then show ?thesis
    by (simp add: step_def seen_ok_def job_of_simps)
qed

lemma seen_ok_step:
  assumes "seen_ok jid w" "reg_ok jid w"
  shows "seen_ok jid (step ev w)"
proof (cases ev)
  case (Wake k)
  have "seen_ok jid (w\<lparr>sleepers := take k (sleepers w) @ drop (Suc k) (sleepers w)\<rparr>)"
    and "reg_ok jid (w\<lparr>sleepers := take k (sleepers w) @ drop (Suc k) (sleepers w)\<rparr>)"
    using assms by (simp_all add: seen_ok_def reg_ok_def job_of_simps)
  then show ?thesis
    using assms(1) Wake by (simp add: step_def seen_ok_CleanupJob)
next
  case Cancel
  then show ?thesis using assms(1) by (simp add: step_def seen_ok_def job_of_simps)
next
  case (Tick d)
  then show ?thesis using assms(1) by (simp add: step_def seen_ok_def job_of_simps)
next
  case (Read i)
  then show ?thesis using assms by (simp add: seen_ok_Read)
next
  case (Query k)
  then show ?thesis using assms by (simp add: seen_ok_Query)
qed (use assms in \<open>simp_all add: step_def seen_ok_sup_step seen_ok_RemoveJob seen_ok_CancelJob\<close>)

lemma world_ok_step: "world_ok jid w \<Longrightarrow> world_ok jid (step ev w)"
  by (simp add: world_ok_def sup_ok_step reg_ok_step seen_ok_step)

lemma world_ok_start: "world_ok jid (StartPropertyProcessing jid limit (boot t))"
  by (simp add: world_ok_def sup_ok_start reg_ok_start)
    (simp add: seen_ok_def seen_inv_def job_of_def StartPropertyProcessing_def boot_def
      AddJob_def make_chan_def)

lemma world_ok_run: "world_ok jid (run evs (StartPropertyProcessing jid limit (boot t)))"
  by (rule run_induct_inv) (simp_all add: world_ok_step world_ok_start)

lemma ret_inv_local:
  assumes "ret_inv jid j sl now p st" "p \<noteq> PReturned" "p' \<noteq> PReturned"
    "\<forall>tc. CompletedAt st' = Some tc \<longrightarrow> tc \<le> now"
  shows "ret_inv jid j sl now p' st'"
  using assms by (simp add: ret_inv_def)

lemma ret_inv_early_return:
  assumes "ret_inv jid j sl now p st" "p \<noteq> PReturned" "Status st = ''running''"
  shows "ret_inv jid j sl now PReturned st"
  using assms by (simp add: ret_inv_def)

lemma ret_ok_send_status:
  assumes "ret_ok jid w" "pc w \<noteq> PReturned" "nxt \<noteq> PReturned"
  shows "ret_ok jid (send_status w nxt)"
proof (cases "chan_send (chans w (sup_statusChan w)) (status w)")
  case (Sent c)
  have "ret_inv jid (job_of w jid) (sleepers w) (clock w) nxt (status w)"
    using assms by (simp add: ret_ok_def ret_inv_def)
  then show ?thesis using Sent by (simp add: send_status_def ret_ok_def job_of_simps)
next
  case Blocked
  then show ?thesis using assms(1) by (simp add: send_status_def)
next
  case SendPanic
  then show ?thesis using assms(1) by (simp add: send_status_def ret_ok_def job_of_simps)
qed

lemma ret_ok_PMark:
  assumes "ret_ok jid w" "reg_ok jid w" "sup_ok w" "pc w = PMark"
  shows "ret_ok jid ((MarkJobCompleted (sup_jobID w) (status w) w)\<lparr>pc := PReturned\<rparr>)"
proof -
  have f: "final_like (length (properties w)) (status w)"
    using assms(3,4) by (simp add: sup_ok_def Let_def)
  then obtain tc where tc: "CompletedAt (status w) = Some tc" and nr: "Status (status w) \<noteq> ''running''"
    by (auto simp: final_like_def)
  have le: "tc \<le> clock w"
    using assms(1) tc by (simp add: ret_ok_def ret_inv_def)
  obtain job where job: "jobs w jid = Some job"
    using assms(1,4) by (auto simp: ret_ok_def ret_inv_def job_of_def)
  have id: "sup_jobID w = jid" using assms(2) by (simp add: reg_ok_def)
  show ?thesis
    using tc nr le job id
    by (simp add: MarkJobCompleted_def ret_ok_def ret_inv_def job_of_def)
qed

lemma in_set_remove_nth:
  assumes "x \<in> set xs" "xs ! k \<noteq> x"
  shows "x \<in> set (take k xs @ drop (Suc k) xs)"
proof -
  obtain i where i: "i < length xs" "xs ! i = x"
    using assms(1) by (auto simp: in_set_conv_nth)
  have "i \<noteq> k" using i(2) assms(2) by auto
  then consider "i < k" | "k < i" by linarith
  then show ?thesis
  proof cases
    case 1
    then have "take k xs ! i = x" "i < length (take k xs)" using i by simp_all
    then have "x \<in> set (take k xs)" by (metis nth_mem)
    then show ?thesis by simp
  next
    case 2
    then have "drop (Suc k) xs ! (i - Suc k) = x" "i - Suc k < length (drop (Suc k) xs)"
      using i by simp_all
    then have "x \<in> set (drop (Suc k) xs)" by (metis nth_mem)
    then show ?thesis by simp
  qed
qed

lemma ret_ok_local:
  assumes "ret_ok jid w" "pc w \<noteq> PReturned" "p' \<noteq> PReturned"
    "\<forall>tc. CompletedAt st' = Some tc \<longrightarrow> tc \<le> clock w"
    "job_of w' jid = job_of w jid" "sleepers w' = sleepers w" "clock w' = clock w"
    "pc w' = p'" "status w' = st'"
  shows "ret_ok jid w'"
  using ret_inv_local [of jid "job_of w jid" "sleepers w" "clock w" "pc w" "status w" p' st'] assms
  by (simp add: ret_ok_def)

lemma ret_ok_completed_le:
  "ret_ok jid w \<Longrightarrow> CompletedAt (status w) = Some tc \<Longrightarrow> tc \<le> clock w"
  by (simp add: ret_ok_def ret_inv_def)

lemma ret_ok_goto:
  "ret_ok jid w \<Longrightarrow> pc w \<noteq> PReturned \<Longrightarrow> nxt \<noteq> PReturned \<Longrightarrow> ret_ok jid (w\<lparr>pc := nxt\<rparr>)"
  by (rule ret_ok_local [where p' = nxt and st' = "status w"])
    (simp_all add: ret_ok_completed_le)

lemma ret_ok_sup_step:
  assumes "ret_ok jid w" "reg_ok jid w" "sup_ok w"
  shows "ret_ok jid (sup_step e pick w)"
proof (cases "pc w")
  case PReturned
  then show ?thesis using assms(1) by (simp add: sup_step_def)
next
  case PMark
  then show ?thesis
    using ret_ok_PMark [OF assms] by (simp add: sup_step_def)
next
  case (PBatch i pending results)
  show ?thesis
  proof (cases pending)
    case Nil
    have "ret_ok jid (w\<lparr>status := tally results (status w), pc := PBatchSend i\<rparr>)"
      by (rule ret_ok_local [OF assms(1), where p' = "PBatchSend i"
            and st' = "tally results (status w)"])
        (simp_all add: PBatch tally_other_fields ret_ok_completed_le [OF assms(1)])
    then show ?thesis using PBatch Nil by (simp add: sup_step_def)
  next
    case (Cons p rest)
    obtain err cs where wk: "worker e (cancelled w (sup_ctx w)) p = (err, cs)"
      by (cases "worker e (cancelled w (sup_ctx w)) p")
    have "ret_ok jid (w\<lparr>calls := calls w @ cs, pc := PBatch i rest (results @ [err])\<rparr>)"
      by (rule ret_ok_local [OF assms(1), where p' = "PBatch i rest (results @ [err])"
            and st' = "status w"])
        (simp_all add: PBatch ret_ok_completed_le [OF assms(1)])
    then show ?thesis using PBatch Cons wk by (simp add: sup_step_def)
  qed
next
  case PFetch
  show ?thesis
  proof (cases "fetchProperties e (sup_limit w)")
    case (Inl err)
    have "ret_ok jid (w\<lparr>status := (status w)\<lparr>Status := ''failed'', ErrorMessage := err,
                                          CompletedAt := Some (clock w)\<rparr>,
                 pc := PSendFinal\<rparr>)"
      by (rule ret_ok_local [OF assms(1), where p' = PSendFinal
            and st' = "(status w)\<lparr>Status := ''failed'', ErrorMessage := err,
                                          CompletedAt := Some (clock w)\<rparr>"])
        (simp_all add: PFetch)
    then show ?thesis using PFetch Inl by (simp add: sup_step_def)
  next
    case (Inr props)
    have "ret_ok jid (w\<lparr>properties := props,
                 status := (status w)\<lparr>TotalProperties := int (length props)\<rparr>,
                 pc := PSendTotal\<rparr>)"
      by (rule ret_ok_local [OF assms(1), where p' = PSendTotal
            and st' = "(status w)\<lparr>TotalProperties := int (length props)\<rparr>"])
        (simp_all add: PFetch ret_ok_completed_le [OF assms(1)])
    then show ?thesis using PFetch Inr by (simp add: sup_step_def)
  qed
next
  case (PLoop i)
  have a: "ret_ok jid (w\<lparr>status := (status w)\<lparr>Status := ''cancelled'',
                                            CompletedAt := Some (clock w)\<rparr>,
                   pc := PSendFinal\<rparr>)"
    by (rule ret_ok_local [OF assms(1), where p' = PSendFinal
          and st' = "(status w)\<lparr>Status := ''cancelled'', CompletedAt := Some (clock w)\<rparr>"])
      (simp_all add: PLoop)
  have b: "ret_ok jid (w\<lparr>status := (status w)\<lparr>Status := ''completed'',
                                            CompletedAt := Some (clock w)\<rparr>,
                   pc := PSendFinal\<rparr>)"
    by (rule ret_ok_local [OF assms(1), where p' = PSendFinal
          and st' = "(status w)\<lparr>Status := ''completed'', CompletedAt := Some (clock w)\<rparr>"])
      (simp_all add: PLoop)
  have c: "ret_ok jid (w\<lparr>pc := PBatch i (take batchSize (drop i (properties w))) []\<rparr>)"
    using assms(1) PLoop by (simp add: ret_ok_goto)
  show ?thesis using PLoop a b c by (simp add: sup_step_def)
next
  case PInit
  have "ret_ok jid (w\<lparr>status := \<lparr>ID = 0, Status = ''running'', TotalProperties = 0,
                         ProcessedCount = 0, FailedCount = 0, StartedAt = clock w,
                         CompletedAt = None, ErrorMessage = []\<rparr>,
            pc := PSendInitial\<rparr>)"
    by (rule ret_ok_local [OF assms(1), where p' = PSendInitial
          and st' = "\<lparr>ID = 0, Status = ''running'', TotalProperties = 0,
                         ProcessedCount = 0, FailedCount = 0, StartedAt = clock w,
                         CompletedAt = None, ErrorMessage = []\<rparr>"])
      (simp_all add: PInit)
  then show ?thesis using PInit by (simp add: sup_step_def)
next
  case PSendInitial
  have "initial_like (status w)" using assms(3) PSendInitial by (simp add: sup_ok_def Let_def)
  then have "Status (status w) = ''running''" by (simp add: initial_like_def)
  then have "ret_ok jid (w\<lparr>pc := PReturned\<rparr>)"
    using assms(1) PSendInitial
      ret_inv_early_return [of jid "job_of w jid" "sleepers w" "clock w" "pc w" "status w"]
    by (simp add: ret_ok_def)
  then show ?thesis
    using assms(1) PSendInitial
    by (simp add: sup_step_def select_send_def Let_def ret_ok_send_status)
next
  case (PBatchSend i)
  have "ret_ok jid (w\<lparr>pc := PLoop (i + batchSize)\<rparr>)"
    using assms(1) PBatchSend by (simp add: ret_ok_goto)
  then show ?thesis
    using assms(1) PBatchSend
    by (simp add: sup_step_def select_send_def Let_def ret_ok_send_status)
next
  case PSendTotal
  then show ?thesis using assms(1) by (simp add: sup_step_def ret_ok_send_status)
next
  case PSendFinal
  then show ?thesis using assms(1) by (simp add: sup_step_def ret_ok_send_status)
qed

lemma ret_inv_later:
  "ret_inv jid j sl now p st \<Longrightarrow> ret_inv jid j sl (now + d) p st"
  by (auto simp: ret_inv_def)

lemma ret_ok_Tick: "ret_ok jid w \<Longrightarrow> ret_ok jid (w\<lparr>clock := clock w + d\<rparr>)"
  using ret_inv_later [of jid "job_of w jid" "sleepers w" "clock w" "pc w" "status w" d]
  by (simp add: ret_ok_def job_of_simps)

lemma ret_ok_Cancel: "ret_ok jid w \<Longrightarrow> ret_ok jid (w\<lparr>cancelled := c\<rparr>)"
  by (simp add: ret_ok_def job_of_simps)

lemma RemoveJob_unregistered: "jobs w k = None \<Longrightarrow> RemoveJob k w = w"
  by (simp add: RemoveJob_def)

lemma CancelJob_unregistered: "jobs w k = None \<Longrightarrow> CancelJob k w = (False, w)"
  by (simp add: CancelJob_def GetJob_def)

lemma CleanupJob_unregistered: "jobs w k = None \<Longrightarrow> CleanupJob k w = w"
  by (simp add: CleanupJob_def)

lemma reg_ok_other: "reg_ok jid w \<Longrightarrow> k \<noteq> jid \<Longrightarrow> jobs w k = None"
  by (simp add: reg_ok_def reg_inv_def)

lemma ret_inv_cache:
  assumes "ret_inv jid (Some job) sl now p st"
  shows "ret_inv jid (Some (job\<lparr>LastStatus := Some s\<rparr>)) sl now p st"
  using assms by (auto simp: ret_inv_def)

lemma GetJobStatus_step_job_of:
  "job_of (snd (GetJobStatus_step r w)) jid = job_of w jid \<or>
   (\<exists>job s. job_of w jid = Some job \<and>
      job_of (snd (GetJobStatus_step r w)) jid = Some (job\<lparr>LastStatus := Some s\<rparr>))"
proof (cases r)
  case (RReceived job st)
  then show ?thesis
    by (cases "jobs w jid") (auto simp: GetJobStatus_step_def job_of_def)
qed (simp_all add: GetJobStatus_step_def job_of_def split: option.splits send_result.splits)

lemma ret_ok_GetJobStatus_step:
  assumes "ret_ok jid w"
  shows "ret_ok jid (snd (GetJobStatus_step r w))"
proof -
  note inv = assms [unfolded ret_ok_def]
  have "ret_inv jid (job_of (snd (GetJobStatus_step r w)) jid) (sleepers w) (clock w) (pc w)
      (status w)"
    using GetJobStatus_step_job_of [of r w jid] inv ret_inv_cache [of jid _ "sleepers w"
        "clock w" "pc w" "status w"]
    by auto
  then show ?thesis
    by (simp add: ret_ok_def GetJobStatus_step_frame)
qed

lemma ret_ok_Read: "ret_ok jid w \<Longrightarrow> ret_ok jid (step (Read i) w)"
  using ret_ok_GetJobStatus_step [of jid w "snd (readers w ! i)"]
  by (simp add: step_Read ret_ok_def job_of_simps)

lemma ret_ok_Query: "ret_ok jid w \<Longrightarrow> ret_ok jid (step (Query k) w)"
  by (simp add: step_def ret_ok_def job_of_simps)

text \<open>A cleanup goroutine that wakes: entry \<open>k\<close> leaves the list, then \<open>CleanupJob\<close> runs.\<close>

lemma ret_inv_wake:
  assumes "ret_inv jid j sl now p st" "k < length sl" "fst (sl ! k) \<le> now"
    "j = Some job" "job_CompletedAt job = Some t" "\<not> t + JobRetentionDuration \<le> now"
  shows "ret_inv jid j (take k sl @ drop (Suc k) sl) now p st"
proof -
  have "sl ! k \<noteq> (t + JobRetentionDuration, jid)"
    using assms(3,6) by (cases "sl ! k") auto
  then have "(t + JobRetentionDuration, jid) \<in> set sl \<Longrightarrow>
      (t + JobRetentionDuration, jid) \<in> set (take k sl @ drop (Suc k) sl)"
    by (rule in_set_remove_nth [rotated])
  then show ?thesis
    using assms(1,4,5) unfolding ret_inv_def by (auto split: if_splits)
qed

lemma ret_inv_sleepers_irrelevant:
  assumes "ret_inv jid j sl now p st" "\<forall>job. j = Some job \<longrightarrow> job_CompletedAt job = None"
  shows "ret_inv jid j sl' now p st"
  using assms unfolding ret_inv_def by (auto split: if_splits)

lemma ret_inv_expired:
  assumes "ret_inv jid (Some job) sl now p st" "job_CompletedAt job = Some t"
    "t + JobRetentionDuration \<le> now"
  shows "ret_inv jid None sl' now p st"
  using assms unfolding ret_inv_def by (auto split: if_splits)

lemma CleanupJob_registered:
  assumes "reg_ok jid w" "jobs w jid = Some p"
  shows "job_CompletedAt (heap w p) = None \<Longrightarrow> CleanupJob jid w = w"
    "job_CompletedAt (heap w p) = Some t \<Longrightarrow> \<not> t + JobRetentionDuration \<le> clock w \<Longrightarrow>
     CleanupJob jid w = w"
    "job_CompletedAt (heap w p) = Some t \<Longrightarrow> t + JobRetentionDuration \<le> clock w \<Longrightarrow>
     CleanupJob jid w =
       w\<lparr>chans := (chans w)(0 := (chans w 0)\<lparr>closed := True\<rparr>), jobs := (jobs w)(jid := None)\<rparr>"
  using assms reg_ok_registered [OF assms]
  by (auto simp: CleanupJob_def close_and_delete_def)

lemma ret_ok_Wake:
  assumes "ret_ok jid w" "reg_ok jid w" "k < length (sleepers w)"
    "fst (sleepers w ! k) \<le> clock w"
  shows "ret_ok jid (CleanupJob (snd (sleepers w ! k))
                       (w\<lparr>sleepers := take k (sleepers w) @ drop (Suc k) (sleepers w)\<rparr>))"
    (is "ret_ok jid (CleanupJob ?id ?w')")
proof -
  let ?sl' = "take k (sleepers w) @ drop (Suc k) (sleepers w)"
  have inv: "ret_inv jid (job_of w jid) (sleepers w) (clock w) (pc w) (status w)"
    using assms(1) by (simp add: ret_ok_def)
  have reg': "reg_ok jid ?w'"
    using assms(2) by (simp add: reg_ok_def)
  show ?thesis
  proof (cases "jobs w jid")
    case None
    then have "jobs w ?id = None"
      using reg_ok_other [OF assms(2)] by (cases "?id = jid") simp_all
    moreover have "ret_inv jid (job_of w jid) ?sl' (clock w) (pc w) (status w)"
      using inv None by (intro ret_inv_sleepers_irrelevant [OF inv]) (simp add: job_of_def)
    ultimately show ?thesis
      by (simp add: CleanupJob_def ret_ok_def job_of_simps)
  next
    case (Some p)
    define job where "job = heap w p"
    have jo: "job_of w jid = Some job"
      using Some by (simp add: job_of_def job_def)
    note r = reg_ok_registered [OF assms(2) Some]
    have p': "jobs ?w' jid = Some p" using Some by simp
    note cl = CleanupJob_registered [OF reg' p', simplified, folded job_def]
    have other: "CleanupJob ?id ?w' = ?w'" if "?id \<noteq> jid"
      using reg_ok_other [OF assms(2) that] by (simp add: CleanupJob_def)
    show ?thesis
    proof (cases "job_CompletedAt job")
      case None
      have "ret_inv jid (job_of w jid) ?sl' (clock w) (pc w) (status w)"
        using jo None by (intro ret_inv_sleepers_irrelevant [OF inv]) simp
      moreover have "CleanupJob ?id ?w' = ?w'"
        using other cl None by (cases "?id = jid") simp_all
      ultimately show ?thesis by (simp add: ret_ok_def job_of_simps)
    next
      case (Some t)
      show ?thesis
      proof (cases "t + JobRetentionDuration \<le> clock w")
        case False
        have "ret_inv jid (job_of w jid) ?sl' (clock w) (pc w) (status w)"
          using inv assms(3,4) jo Some False by (rule ret_inv_wake)
        moreover have "CleanupJob ?id ?w' = ?w'"
          using other cl Some False by (cases "?id = jid") simp_all
        ultimately show ?thesis by (simp add: ret_ok_def job_of_simps)
      next
        case True
        show ?thesis
        proof (cases "?id = jid")
          case False
          have "sleepers w ! k \<noteq> (t + JobRetentionDuration, jid)"
            using False by (cases "sleepers w ! k") auto
          then have "(t + JobRetentionDuration, jid) \<in> set (sleepers w) \<Longrightarrow>
              (t + JobRetentionDuration, jid) \<in> set ?sl'"
            by (rule in_set_remove_nth [rotated])
          then have "ret_inv jid (job_of w jid) ?sl' (clock w) (pc w) (status w)"
            using inv jo Some unfolding ret_inv_def
            by (auto split: if_splits)
          then show ?thesis using other [OF False] by (simp add: ret_ok_def job_of_simps)
        next
          case id: True
          have "ret_inv jid None ?sl' (clock w) (pc w) (status w)"
            using inv jo Some True
            by (intro ret_inv_expired [of jid job "sleepers w" _ _ _ t]) simp_all
          then show ?thesis
            using id cl Some True
            by (simp add: ret_ok_def job_of_def)
        qed
      qed
    qed
  qed
qed

lemma ret_ok_step:
  assumes "ret_ok jid w" "reg_ok jid w" "sup_ok w"
    "ev \<noteq> Remove jid" "ev \<noteq> CancelReq jid"
  shows "ret_ok jid (step ev w)"
proof (cases ev)
  case (Step pick e)
  then show ?thesis using ret_ok_sup_step [OF assms(1-3)] by (simp add: step_def)
next
  case Cancel
  then show ?thesis using assms(1) by (simp add: step_def ret_ok_Cancel)
next
  case (Remove k)
  then have "jobs w k = None" using assms(4) reg_ok_other [OF assms(2)] by simp
  then show ?thesis using Remove assms(1) by (simp add: step_def RemoveJob_unregistered)
next
  case (CancelReq k)
  then have "jobs w k = None" using assms(5) reg_ok_other [OF assms(2)] by simp
  then show ?thesis using CancelReq assms(1) by (simp add: step_def CancelJob_unregistered)
next
  case (Query k)
  then show ?thesis using assms(1) by (simp add: ret_ok_Query)
next
  case (Read i)
  then show ?thesis using assms(1) by (simp add: ret_ok_Read)
next
  case (Tick d)
  then show ?thesis using assms(1) by (simp add: step_def ret_ok_Tick)
next
  case (Wake k)
  then show ?thesis using assms(1) ret_ok_Wake [OF assms(1,2)] by (simp add: step_def)
qed

lemma kept_ok_start: "kept_ok jid (StartPropertyProcessing jid limit (boot t))"
  by (simp add: kept_ok_def world_ok_start)
    (simp add: ret_ok_def ret_inv_def job_of_def StartPropertyProcessing_def boot_def
      AddJob_def zero_status_def)

lemma kept_ok_run:
  assumes "\<forall>ev\<in>set evs. ev \<noteq> Remove jid \<and> ev \<noteq> CancelReq jid"
  shows "kept_ok jid (run evs (StartPropertyProcessing jid limit (boot t)))"
proof (rule run_induct_events)
  show "kept_ok jid (StartPropertyProcessing jid limit (boot t))" by (rule kept_ok_start)
next
  fix ev w
  assume ev: "ev \<in> set evs" and k: "kept_ok jid w"
  have "world_ok jid (step ev w)"
    using k by (simp add: kept_ok_def world_ok_step)
  moreover have "ret_ok jid (step ev w)"
    using k ev assms by (intro ret_ok_step) (auto simp: kept_ok_def world_ok_def)
  ultimately show "kept_ok jid (step ev w)"
    by (simp add: kept_ok_def)
qed

lemma sup_step_returning:
  assumes "returning (pc w)"
  shows "returning (pc (sup_step e pick w)) \<and> status (sup_step e pick w) = status w \<and>
         calls (sup_step e pick w) = calls w \<and> properties (sup_step e pick w) = properties w"
  using assms
  by (auto simp: returning_def sup_step_def send_status_def MarkJobCompleted_def
      split: send_result.splits option.splits)

lemma step_returning:
  assumes "returning (pc w)"
  shows "returning (pc (step ev w)) \<and> status (step ev w) = status w \<and>
         calls (step ev w) = calls w \<and> properties (step ev w) = properties w"
proof (cases "is_Step ev")
  case True
  then show ?thesis
    using sup_step_returning [OF assms] by (cases ev) (simp_all add: is_Step_def step_def)
next
  case False
  then show ?thesis using assms by (simp add: step_frame)
qed

text \<open>
  Once the supervisor has set a final state it makes no further call to a collaborator and
  never changes the snapshot again, whatever happens next.
\<close>

lemma final_state_is_final:
  "returning (pc w) \<Longrightarrow>
     returning (pc (run evs w)) \<and> status (run evs w) = status w \<and>
     calls (run evs w) = calls w \<and> properties (run evs w) = properties w"
proof (induction evs arbitrary: w)
  case Nil
  then show ?case by simp
next
  case (Cons ev evs)
  show ?case
    using Cons.IH [of "step ev w"] step_returning [OF Cons.prems, of ev] Cons.prems
    by simp
qed

section \<open>Evaluating example runs\<close>

text \<open>The equations that evaluate the model on the example inputs.\<close>

lemmas run_defs = StartPropertyProcessing_def boot_def AddJob_def step_def sup_step_def
  select_send_def send_status_def chan_send_def chan_recv_def make_chan_def
  CancelJob_def GetJob_def RemoveJob_def close_and_delete_def MarkJobCompleted_def
  CleanupJob_def GetJobStatus_def GetJobStatus_lookup_def GetJobStatus_step_def Let_def
  batchSize_def worker_def ex_start_def ex_go_def

lemma replicate_numeral: "replicate (numeral k) x = x # replicate (pred_numeral k) x"
  by (simp add: numeral_eq_Suc)

lemma ex_fetch: "fetchProperties (ex_env ls) limit = Inr ls"
  by (simp add: fetchProperties_def ex_env_def)

lemma ex_fetch_cancelled:
  "fetchProperties ex_env_cancelled limit = Inl ''failed to fetch properties: context canceled''"
  by (simp add: fetchProperties_def ex_env_cancelled_def ex_env_def)

lemma ex_process_ok:
  "processProperty (ex_env ls) False (ex_listing lid []) =
     (None, [RepoCreate (convertToProperty (ex_listing lid []) [])])"
  by (simp add: processProperty_def downloadImages_def ex_env_def ex_listing_def)

lemmas ex_simps = run_defs replicate_numeral ex_fetch ex_fetch_cancelled ex_process_ok
  ex_listings_def ex_ids11_def ex_one_def ex_eleven_def

text \<open>
  A job with one listing and no media, run to the end: the supervisor has returned, four
  snapshots were published, the job is still registered, the cleanup goroutine sleeps.
\<close>

lemma ex_world_done_state:
  "pc ex_world_done = PReturned" "panic ex_world_done = None" "clock ex_world_done = 1005"
  "status ex_world_done =
     \<lparr>ID = 0, Status = ''completed'', TotalProperties = 1, ProcessedCount = 1,
      FailedCount = 0, StartedAt = 1000, CompletedAt = Some 1000, ErrorMessage = []\<rparr>"
  "map Status (published ex_world_done) = [''running'', ''running'', ''running'', ''completed'']"
  "sleepers ex_world_done = [(1000 + JobRetentionDuration, ''job-1'')]"
  "length (properties ex_world_done) = 1"
  "jobs ex_world_done ''job-1'' = Some 0"
  "readers ex_world_done = []"
  by (simp_all add: ex_world_done_def ex_simps)

text \<open>
  The same job once the retention duration has passed and the cleanup goroutine has run:
  the job is gone.
\<close>

lemma ex_world_expired_state:
  "panic ex_world_expired = None" "sleepers ex_world_expired = []"
  "GetJobStatus ''job-1'' ex_world_expired = (RReturned None False, ex_world_expired)"
  by (simp_all add: ex_world_expired_def ex_simps JobRetentionDuration_def)

lemma ex_world_done_run:
  "ex_world_done =
     run (ex_go 11 ex_one @ [Tick 5]) (StartPropertyProcessing ''job-1'' 25 (boot 1000))"
  by (simp add: ex_world_done_def ex_start_def)

lemma ex_world_queued_run:
  "ex_world_queued = run (ex_go 2 ex_one) (StartPropertyProcessing ''job-1'' 25 (boot 1000))"
  by (simp add: ex_world_queued_def ex_start_def)



section \<open>Counters of the pipeline\<close>

text \<open>
  C1. On every run of a job, a snapshot in state \<open>completed\<close> (the supervisor's own
  \<open>status\<close>, a snapshot it published, or the one cached in the registry) has
  processed + failed = total, and total is the number of listings the fetch returned
  (the supervisor's \<open>properties\<close>).
\<close>

theorem completed_counts:
  assumes "w = run evs (StartPropertyProcessing jid limit (boot t))"
    and "s = status w \<or> s \<in> set (published w) \<or>
         (\<exists>job. jobs w jid = Some job \<and> LastStatus (heap w job) = Some s)"
    and "Status s = ''completed''"
  shows "ProcessedCount s + FailedCount s = TotalProperties s \<and>
         TotalProperties s = int (length (properties w))"
proof -
  have ok: "world_ok jid w"
    unfolding assms(1) by (rule world_ok_run)
  then have sup: "sup_ok w" and seen: "seen_ok jid w"
    by (simp_all add: world_ok_def)
  have cur: "s = status w \<Longrightarrow> snapshot_ok (length (properties w)) s"
    using sup assms(3) by (cases "pc w = PInit") (auto simp: sup_ok_def Let_def zero_status_def)
  have pub: "s \<in> set (published w) \<Longrightarrow> snapshot_ok (length (properties w)) s"
    using sup by (simp add: sup_ok_def Let_def)
  have "s = status w \<or> s \<in> set (published w)"
    using assms(2) seen by (auto simp: seen_ok_def seen_inv_def job_of_def)
  then have "snapshot_ok (length (properties w)) s"
    using cur pub by blast
  then show ?thesis
    using assms(3) by (auto simp: snapshot_ok_def initial_like_def)
qed

theorem completed_counts_witness:
  "Status (status ex_world_done) = ''completed'' \<and>
   ProcessedCount (status ex_world_done) + FailedCount (status ex_world_done) =
     TotalProperties (status ex_world_done) \<and>
   TotalProperties (status ex_world_done) = int (length (properties ex_world_done))"
proof -
  have s: "status ex_world_done = status ex_world_done \<or>
      status ex_world_done \<in> set (published ex_world_done) \<or>
      (\<exists>job. jobs ex_world_done ''job-1'' = Some job \<and>
             LastStatus (heap ex_world_done job) = Some (status ex_world_done))"
    by simp
  have c: "Status (status ex_world_done) = ''completed''"
    by (simp add: ex_world_done_state)
  from completed_counts [OF ex_world_done_run s c] c show ?thesis
    by simp
qed

text \<open>
  C8. On every run of a job, every published snapshot has non-negative counters with
  processed + failed \<le> total, where total is the number of listings fetched, or still 0
  in the snapshots published before the fetch (whose counters are 0); and from one
  published snapshot to any later one neither counter decreases.
\<close>

theorem published_counters_monotone:
  assumes "w = run evs (StartPropertyProcessing jid limit (boot t))"
  shows "(\<forall>s\<in>set (published w).
            0 \<le> ProcessedCount s \<and> 0 \<le> FailedCount s \<and>
            ProcessedCount s + FailedCount s \<le> TotalProperties s \<and>
            (TotalProperties s = int (length (properties w)) \<or>
             TotalProperties s = 0 \<and> ProcessedCount s + FailedCount s = 0)) \<and>
         (\<forall>i j. i < j \<longrightarrow> j < length (published w) \<longrightarrow>
            ProcessedCount (published w ! i) \<le> ProcessedCount (published w ! j) \<and>
            FailedCount (published w ! i) \<le> FailedCount (published w ! j))"
proof -
  have sup: "sup_ok w"
    unfolding assms(1) by (rule sup_ok_run)
  have "\<forall>s\<in>set (published w). snapshot_ok (length (properties w)) s"
    using sup by (simp add: sup_ok_def Let_def)
  then have a: "\<forall>s\<in>set (published w).
            0 \<le> ProcessedCount s \<and> 0 \<le> FailedCount s \<and>
            ProcessedCount s + FailedCount s \<le> TotalProperties s \<and>
            (TotalProperties s = int (length (properties w)) \<or>
             TotalProperties s = 0 \<and> ProcessedCount s + FailedCount s = 0)"
    by (auto simp: snapshot_ok_def initial_like_def)
  have "sorted_wrt le_counts (published w)"
    using sup by (simp add: sup_ok_def Let_def)
  then have b: "\<forall>i j. i < j \<longrightarrow> j < length (published w) \<longrightarrow>
      le_counts (published w ! i) (published w ! j)"
    by (simp add: sorted_wrt_iff_nth_less)
  show ?thesis
    using a b by (simp add: le_counts_def)
qed

theorem published_counters_monotone_witness:
  "length (published ex_world_done) = 4 \<and>
   ProcessedCount (published ex_world_done ! 1) \<le> ProcessedCount (published ex_world_done ! 3) \<and>
   FailedCount (published ex_world_done ! 1) \<le> FailedCount (published ex_world_done ! 3)"
proof -
  have "length (map Status (published ex_world_done)) = 4"
    by (simp add: ex_world_done_state)
  then have l: "length (published ex_world_done) = 4"
    by simp
  from published_counters_monotone [OF ex_world_done_run] l show ?thesis
    by simp
qed

text \<open>
  C10. A batch worker that finds the context cancelled when it starts reports the
  context's error for its listing and makes no call to any collaborator; that result,
  being an error, adds exactly one to the failed counter when the batch is counted.
\<close>

theorem cancelled_worker_counts_as_failed:
  assumes "pc w = PBatch i (property # rest) results"
    and "cancelled w (sup_ctx w)"
  shows "worker e (cancelled w (sup_ctx w)) property = (Some ''context canceled'', []) \<and>
         sup_step e pick w = w\<lparr>pc := PBatch i rest (results @ [Some ''context canceled''])\<rparr> \<and>
         calls (sup_step e pick w) = calls w \<and>
         FailedCount (tally (rs @ [Some ''context canceled''] @ rs') st) =
           FailedCount (tally (rs @ rs') st) + 1 \<and>
         ProcessedCount (tally (rs @ [Some ''context canceled''] @ rs') st) =
           ProcessedCount (tally (rs @ rs') st)"
  using assms
  by (simp add: worker_def sup_step_def tally_FailedCount tally_ProcessedCount)

theorem cancelled_worker_counts_as_failed_witness:
  "pc ex_world_in_batch = PBatch 0 [ex_listing ''L01'' []] [] \<and>
   cancelled ex_world_in_batch (sup_ctx ex_world_in_batch) \<and>
   sup_step ex_one True ex_world_in_batch =
     ex_world_in_batch\<lparr>pc := PBatch 0 [] [Some ''context canceled'']\<rparr> \<and>
   calls (sup_step ex_one True ex_world_in_batch) = calls ex_world_in_batch \<and>
   FailedCount (tally [Some ''context canceled''] zero_status) = 1 \<and>
   ProcessedCount (tally [Some ''context canceled''] zero_status) = 0"
proof -
  have p: "pc ex_world_in_batch = PBatch 0 (ex_listing ''L01'' [] # []) []"
    by (simp add: ex_world_in_batch_def ex_simps)
  have c: "cancelled ex_world_in_batch (sup_ctx ex_world_in_batch)"
    by (simp add: ex_world_in_batch_def ex_simps)
  from cancelled_worker_counts_as_failed [OF p c, of ex_one True "[]" "[]" zero_status] p c
  show ?thesis
    by (simp add: zero_status_def)
qed

section \<open>Status queries\<close>

lemma GetJobStatus_lookup_registered:
  "jobs w k = Some job \<Longrightarrow> GetJobStatus_lookup k w = RLookedUp job"
  by (simp add: GetJobStatus_lookup_def GetJob_def)

lemma GetJobStatus_unregistered:
  "jobs w k = None \<Longrightarrow> GetJobStatus k w = (RReturned None False, w)"
  by (simp add: GetJobStatus_def GetJobStatus_lookup_def GetJobStatus_step_def GetJob_def)



lemma GetJobStatus_registered:
  assumes "reg_ok jid w" "jobs w k = Some job"
  shows "GetJobStatus k w =
     (case LastStatus (heap w job) of
        Some s \<Rightarrow> (RReturned (Some s) True, w)
      | None \<Rightarrow>
          (case buf (chans w 0) of
             st # rest \<Rightarrow>
               (RReturned (Some st) True,
                w\<lparr>heap := (heap w)(job := (heap w job)\<lparr>LastStatus := Some st\<rparr>),
                  chans := (chans w)(0 := (chans w 0)\<lparr>buf := rest @ [st]\<rparr>)\<rparr>)
           | [] \<Rightarrow>
               (RReturned (Some (zero_status\<lparr>Status := ''running'',
                                               StartedAt := StartTime (heap w job)\<rparr>)) True,
                w)))"
proof (cases "LastStatus (heap w job)")
  case (Some s)
  then show ?thesis
    using assms(2)
    by (simp add: GetJobStatus_def GetJobStatus_lookup_def GetJob_def GetJobStatus_step_def)
next
  case None
  note r = reg_ok_registered [OF assms]
  show ?thesis
  proof (cases "buf (chans w 0)")
    case Nil
    then show ?thesis
      using None assms(2) r(3,5)
      by (simp add: GetJobStatus_def GetJobStatus_lookup_def GetJob_def GetJobStatus_step_def
          chan_recv_def)
  next
    case (Cons st rest)
    then have "length rest < cap (chans w 0)" using r(6,7) by simp
    then show ?thesis
      using None Cons assms(2) r(3,5)
      by (simp add: GetJobStatus_def GetJobStatus_lookup_def GetJob_def GetJobStatus_step_def
          chan_recv_def chan_send_def)
  qed
qed

lemma GetJobStatus_found:
  assumes "reg_ok jid w" "jobs w k = Some job"
  shows "\<exists>s. fst (GetJobStatus k w) = RReturned (Some s) True"
  by (simp add: GetJobStatus_registered [OF assms] split: option.splits list.splits)

lemma readers_registered:
  assumes "reg_ok jid w" "jobs w k = Some job" "i < length (readers w)"
    "fst (readers w ! i) = k"
  shows "case snd (readers w ! i) of
           RLookedUp job' \<Rightarrow> job' = job
         | RReceived job' st \<Rightarrow> job' = job
         | RCached job' st \<Rightarrow> job' = job
         | RReturned res found \<Rightarrow> found \<and> res \<noteq> None"
proof -
  have ri: "readers_inv (jobs w) (readers w)" using assms(1) by (simp add: reg_ok_def)
  have "reader_ok (Some job) (snd (readers w ! i))"
    using readers_inv_nth [OF ri assms(3)] assms(2,4) by simp
  then show ?thesis
    using reg_ok_registered(2) [OF assms(1,2)]
    by (cases "snd (readers w ! i)") auto
qed

lemma Read_registered:
  assumes "reg_ok jid w" "jobs w k = Some job"
  shows "panic (step (Read i) w) = None" "jobs (step (Read i) w) = jobs w"
proof -
  show j: "jobs (step (Read i) w) = jobs w"
    by (simp add: step_Read GetJobStatus_step_frame)
  have "reg_ok jid (step (Read i) w)"
    using assms(1) by (rule reg_ok_Read)
  then show "panic (step (Read i) w) = None"
    using assms(2) j reg_ok_registered(8) [of jid "step (Read i) w" k job] by simp
qed

lemma run_panicked: "panic w \<noteq> None \<Longrightarrow> run evs w = w"
  by (cases evs) simp_all

lemma run_append: "run (evs @ evs') w = run evs' (run evs w)"
proof (induction evs arbitrary: w)
  case Nil
  then show ?case by simp
next
  case (Cons ev evs)
  then show ?case by (simp add: run_panicked)
qed

lemma GetJobStatus_step_stage:
  assumes "panic (snd (GetJobStatus_step r w)) = None"
  shows "min 3 (Suc (stage r)) \<le> stage (fst (GetJobStatus_step r w))"
  using assms
  by (cases r)
    (simp_all add: GetJobStatus_step_def split: option.splits send_result.splits prod.splits)

lemma sup_step_readers: "readers (sup_step e pick w) = readers w"
  by (cases "pc w")
    (simp_all add: sup_step_def select_send_def send_status_def MarkJobCompleted_def Let_def
      split: sum.splits list.splits prod.splits send_result.splits option.splits)

lemma step_readers_other:
  assumes "i < length (readers w)" "ev \<noteq> Read i"
  shows "i < length (readers (step ev w)) \<and> readers (step ev w) ! i = readers w ! i"
proof (cases ev)
  case (Step pick e)
  then show ?thesis using assms(1) by (simp add: step_def sup_step_readers)
next
  case (Read j)
  then have "j \<noteq> i" using assms(2) by simp
  then show ?thesis
    using assms(1) Read by (simp add: step_Read GetJobStatus_step_frame)
next
  case (Query k)
  then show ?thesis using assms(1) by (simp add: step_def nth_append)
qed (use assms(1) in \<open>auto simp: step_def RemoveJob_def CancelJob_def GetJob_def CleanupJob_def
      close_and_delete_def Let_def split: option.splits\<close>)

lemma step_readers_Read:
  assumes "i < length (readers w)" "panic (step (Read i) w) = None"
  shows "i < length (readers (step (Read i) w)) \<and>
         fst (readers (step (Read i) w) ! i) = fst (readers w ! i) \<and>
         min 3 (Suc (stage (snd (readers w ! i)))) \<le>
           stage (snd (readers (step (Read i) w) ! i))"
  using assms GetJobStatus_step_stage [of "snd (readers w ! i)" w]
  by (simp add: step_Read)

lemma run_reader_progress:
  assumes "i < length (readers w)" "panic (run evs w) = None"
  shows "i < length (readers (run evs w)) \<and>
         fst (readers (run evs w) ! i) = fst (readers w ! i) \<and>
         min 3 (stage (snd (readers w ! i)) + count_list evs (Read i)) \<le>
           stage (snd (readers (run evs w) ! i))"
  using assms
proof (induction evs arbitrary: w)
  case Nil
  then show ?case by simp
next
  case (Cons ev evs)
  have p: "panic w = None"
    using Cons.prems(2) run_panicked [of w "ev # evs"] by (cases "panic w") simp_all
  then have r: "run (ev # evs) w = run evs (step ev w)" by simp
  have p': "panic (step ev w) = None"
    using Cons.prems(2) r run_panicked [of "step ev w" evs] by (cases "panic (step ev w)") simp_all
  have s: "i < length (readers (step ev w)) \<and>
         fst (readers (step ev w) ! i) = fst (readers w ! i) \<and>
         min 3 (stage (snd (readers w ! i)) + (if ev = Read i then 1 else 0)) \<le>
           stage (snd (readers (step ev w) ! i))"
  proof (cases "ev = Read i")
    case True
    then show ?thesis
      using step_readers_Read [OF Cons.prems(1)] p' by simp
  next
    case False
    then show ?thesis
      using step_readers_other [OF Cons.prems(1) False] by simp
  qed
  have ih: "i < length (readers (run evs (step ev w))) \<and>
         fst (readers (run evs (step ev w)) ! i) = fst (readers (step ev w) ! i) \<and>
         min 3 (stage (snd (readers (step ev w) ! i)) + count_list evs (Read i)) \<le>
           stage (snd (readers (run evs (step ev w)) ! i))"
    using Cons.IH [of "step ev w"] s Cons.prems(2) r by simp
  show ?case
    unfolding r using s ih by (auto simp: min_def split: if_splits)
qed

lemma stage_returned: "3 \<le> stage r \<Longrightarrow> \<exists>res found. r = RReturned res found"
  by (cases r) simp_all

lemma reg_ok_run_from: "reg_ok jid w \<Longrightarrow> reg_ok jid (run evs w)"
  by (rule run_induct_inv) (simp_all add: reg_ok_step)

text \<open>
  Every section a call runs takes it one stage further unless it panics, and no other
  event touches the call. So a call for an id that is still registered once the call has
  run three sections has returned, and it has returned a snapshot.
\<close>

lemma call_returns_while_registered:
  assumes "reg_ok jid w" "i < length (readers w)" "fst (readers w ! i) = k"
    "3 \<le> count_list evs (Read i)" "jobs (run evs w) k = Some job"
  shows "\<exists>s. snd (readers (run evs w) ! i) = RReturned (Some s) True"
proof -
  have reg: "reg_ok jid (run evs w)"
    using assms(1) by (rule reg_ok_run_from)
  have p: "panic (run evs w) = None"
    using reg_ok_registered(8) [OF reg assms(5)] .
  note pr = run_reader_progress [OF assms(2) p]
  have "3 \<le> stage (snd (readers (run evs w) ! i))"
    using pr assms(4) by simp
  then obtain res found where rf: "snd (readers (run evs w) ! i) = RReturned res found"
    using stage_returned by blast
  have "fst (readers (run evs w) ! i) = k" "i < length (readers (run evs w))"
    using pr assms(3) by simp_all
  then show ?thesis
    using readers_registered [OF reg assms(5), of i] rf by auto
qed



text \<open>
  The premise that the id is registered matters. In this run \<open>CancelJob\<close> is called
  right after a call of \<open>GetJobStatus\<close> has looked the job up: the call still holds the
  job, receives the queued snapshot from the closed channel, caches it, and panics at the
  re-send.
\<close>

lemma query_races_removal:
  "panic ex_world_query_race = Some ''send on closed channel'' \<and>
   jobs ex_world_query_race ''job-1'' = None \<and>
   readers ex_world_query_race =
     [(''job-1'', RCached 0 \<lparr>ID = 0, Status = ''running'', TotalProperties = 0,
         ProcessedCount = 0, FailedCount = 0, StartedAt = 1000, CompletedAt = None,
         ErrorMessage = []\<rparr>)]"
  by (simp add: ex_world_query_race_def ex_simps)

section \<open>Retention of finished jobs\<close>

text \<open>
  C4, as stated, fails: \<open>CancelJob\<close> cancels the context and removes the job from the
  registry at once. In this run the job has one listing and is cancelled after the fetch;
  the supervisor sees the cancellation at the first batch boundary and sets the state
  \<open>cancelled\<close> at time 1000; five nanoseconds later, far inside the retention window,
  the status query answers not-found.
\<close>

theorem cancelled_job_not_retained:
  "Status (status ex_world_cancel_after_fetch) = ''cancelled'' \<and>
   CompletedAt (status ex_world_cancel_after_fetch) = Some 1000 \<and>
   clock ex_world_cancel_after_fetch = 1005 \<and>
   clock ex_world_cancel_after_fetch < 1000 + JobRetentionDuration \<and>
   panic ex_world_cancel_after_fetch = None \<and>
   GetJobStatus_lookup ''job-1'' ex_world_cancel_after_fetch = RReturned None False \<and>
   GetJobStatus ''job-1'' ex_world_cancel_after_fetch =
     (RReturned None False, ex_world_cancel_after_fetch)"
  by (simp add: ex_world_cancel_after_fetch_def ex_simps JobRetentionDuration_def)

text \<open>
  \<open>CancelJob\<close> on a registered id removes it from the registry, and an id that is not
  registered stays so, whatever happens next.
\<close>

lemma CancelJob_removes:
  assumes "w = run evs (StartPropertyProcessing jid limit (boot t))" "jobs w k = Some job"
  shows "fst (CancelJob k w) \<and> jobs (snd (CancelJob k w)) k = None"
proof -
  have reg: "reg_ok jid w"
    unfolding assms(1) by (rule reg_ok_run)
  note r = reg_ok_registered [OF reg assms(2)]
  show ?thesis
    using assms(2) r(3,5)
    by (simp add: CancelJob_def GetJob_def RemoveJob_def close_and_delete_def)
qed

lemma sup_step_jobs: "jobs (sup_step e pick w) = jobs w"
  by (cases "pc w")
    (simp_all add: sup_step_def select_send_def send_status_def MarkJobCompleted_def Let_def
      split: sum.splits list.splits prod.splits send_result.splits option.splits)

lemma step_unregistered: "jobs w k = None \<Longrightarrow> jobs (step ev w) k = None"
proof (cases ev)
  case (Step pick e)
  assume "jobs w k = None"
  then show ?thesis using Step by (simp add: step_def sup_step_jobs)
next
  case (Read i)
  assume "jobs w k = None"
  then show ?thesis using Read by (simp add: step_Read GetJobStatus_step_frame)
qed (auto simp: step_def RemoveJob_def CancelJob_def GetJob_def CleanupJob_def
      close_and_delete_def Let_def split: option.splits)

lemma run_unregistered: "jobs w k = None \<Longrightarrow> jobs (run evs w) k = None"
  by (induction evs arbitrary: w) (simp_all add: step_unregistered)

lemma final_status_returning:
  assumes "sup_ok w" "Status (status w) \<noteq> ''running''" "CompletedAt (status w) = Some tc"
  shows "returning (pc w)"
  using assms
  by (cases "pc w") (auto simp: sup_ok_def Let_def returning_def initial_like_def zero_status_def)

text \<open>
  A status query that starts once the final state is set and has run its three sections
  by a moment still inside the window, with anything but \<open>CancelJob\<close> and
  \<open>RemoveJob\<close> for the job happening in between, has returned a snapshot.
\<close>

lemma query_in_window:
  assumes "w = run evs (StartPropertyProcessing jid limit (boot t0))"
    and "\<forall>ev\<in>set evs. ev \<noteq> Remove jid \<and> ev \<noteq> CancelReq jid"
    and "Status (status w) \<noteq> ''running''"
    and "CompletedAt (status w) = Some tc"
    and "\<forall>ev\<in>set evs'. ev \<noteq> Remove jid \<and> ev \<noteq> CancelReq jid"
    and "clock (run (Query jid # evs') w) < tc + JobRetentionDuration"
    and "3 \<le> count_list evs' (Read (length (readers w)))"
  shows "\<exists>s. snd (readers (run (Query jid # evs') w) ! length (readers w)) =
           RReturned (Some s) True"
proof -
  define w' where "w' = run (Query jid # evs') w"
  have w': "w' = run (evs @ Query jid # evs') (StartPropertyProcessing jid limit (boot t0))"
    by (simp add: w'_def assms(1) run_append)
  have all: "\<forall>ev\<in>set (evs @ Query jid # evs'). ev \<noteq> Remove jid \<and> ev \<noteq> CancelReq jid"
    using assms(2,5) by auto
  have k': "kept_ok jid w'"
    unfolding w' using all by (rule kept_ok_run)
  have sup: "sup_ok w" and reg: "reg_ok jid w"
    unfolding assms(1) by (rule sup_ok_run, rule reg_ok_run)
  have fin: "returning (pc w)"
    using sup assms(3,4) by (rule final_status_returning)
  have st: "status w' = status w"
    unfolding w'_def using final_state_is_final [OF fin] by blast
  have ret: "ret_inv jid (job_of w' jid) (sleepers w') (clock w') (pc w') (status w')"
    using k' by (simp add: kept_ok_def ret_ok_def)
  obtain job where job: "jobs w' jid = Some job"
    using ret st assms(3,4,6) unfolding w'_def [symmetric]
    by (auto simp: ret_inv_def job_of_def split: if_splits)
  have p: "panic w = None"
  proof (cases "jobs w jid")
    case None
    then have "jobs w' jid = None"
      unfolding w'_def by (rule run_unregistered)
    then show ?thesis using job by simp
  next
    case (Some a)
    then show ?thesis using reg_ok_registered(8) [OF reg Some] by simp
  qed
  define w1 where "w1 = step (Query jid) w"
  have run0: "run (Query jid # evs') w = run evs' w1"
    using p by (simp add: w1_def)
  have run1: "w' = run evs' w1"
    using run0 by (simp only: w'_def)
  have reg1: "reg_ok jid w1"
    unfolding w1_def using reg by (rule reg_ok_step)
  have rd: "readers w1 = readers w @ [(jid, GetJobStatus_lookup jid w)]"
    by (simp add: w1_def step_def)
  have i: "length (readers w) < length (readers w1)"
    and f: "fst (readers w1 ! length (readers w)) = jid"
    by (simp_all add: rd)
  have "\<exists>s. snd (readers (run evs' w1) ! length (readers w)) = RReturned (Some s) True"
    using reg1 i f assms(7) job [unfolded run1] by (rule call_returns_while_registered)
  then show ?thesis
    by (simp only: run0)
qed

text \<open>
  C4, amended. Take any run in which neither \<open>CancelJob\<close> nor \<open>RemoveJob\<close> is called
  for the job, at a moment when the supervisor has set a final state (\<open>completed\<close>,
  \<open>failed\<close> or \<open>cancelled\<close>) at time \<open>tc\<close>. As long as less than the retention
  duration has passed since \<open>tc\<close>, the job is registered: a status query that starts now
  finds it, no call for this id has returned not-found, no section of a call in progress
  panics, and a call that runs all its sections now returns a snapshot. A call that
  starts now and has run its three sections by a moment still inside the window,
  whatever else happens in between short of \<open>CancelJob\<close> or \<open>RemoveJob\<close> for the
  job, has returned a snapshot. The job is absent, and a query answers not-found, only if
  the retention duration has passed.
  While the job is still registered after the supervisor's return, it carries a
  completion time \<open>t \<ge> tc\<close>, a cleanup goroutine is asleep until \<open>t\<close> plus the
  retention duration, and \<open>CleanupJob\<close> removes the job exactly when the clock has
  reached that time.
\<close>

theorem retention_window:
  assumes "w = run evs (StartPropertyProcessing jid limit (boot t0))"
    and "\<forall>ev\<in>set evs. ev \<noteq> Remove jid \<and> ev \<noteq> CancelReq jid"
    and "Status (status w) = ''completed'' \<or> Status (status w) = ''failed'' \<or>
         Status (status w) = ''cancelled''"
    and "CompletedAt (status w) = Some tc"
  shows "(clock w < tc + JobRetentionDuration \<longrightarrow>
            (\<exists>job. jobs w jid = Some job \<and> GetJobStatus_lookup jid w = RLookedUp job) \<and>
            (\<forall>i<length (readers w). fst (readers w ! i) = jid \<longrightarrow>
               (\<forall>found. snd (readers w ! i) \<noteq> RReturned None found)) \<and>
            (\<forall>i. panic (step (Read i) w) = None) \<and>
            (\<exists>s. fst (GetJobStatus jid w) = RReturned (Some s) True)) \<and>
         (\<forall>evs'. (\<forall>ev\<in>set evs'. ev \<noteq> Remove jid \<and> ev \<noteq> CancelReq jid) \<and>
            clock (run (Query jid # evs') w) < tc + JobRetentionDuration \<and>
            3 \<le> count_list evs' (Read (length (readers w))) \<longrightarrow>
            (\<exists>s. snd (readers (run (Query jid # evs') w) ! length (readers w)) =
               RReturned (Some s) True)) \<and>
         (jobs w jid = None \<longrightarrow>
            tc + JobRetentionDuration \<le> clock w \<and>
            GetJobStatus jid w = (RReturned None False, w)) \<and>
         (\<forall>job. pc w = PReturned \<and> jobs w jid = Some job \<longrightarrow>
            (\<exists>t. job_CompletedAt (heap w job) = Some t \<and> tc \<le> t \<and>
                 (t + JobRetentionDuration, jid) \<in> set (sleepers w) \<and>
                 jobs (CleanupJob jid w) jid =
                   (if t + JobRetentionDuration \<le> clock w then None else Some job)))"
proof -
  have k: "kept_ok jid w"
    unfolding assms(1) using assms(2) by (rule kept_ok_run)
  then have reg: "reg_ok jid w"
    and ret: "ret_inv jid (job_of w jid) (sleepers w) (clock w) (pc w) (status w)"
    by (simp_all add: kept_ok_def world_ok_def ret_ok_def)
  have nr: "Status (status w) \<noteq> ''running''"
    using assms(3) by auto
  have later: "\<forall>evs'. (\<forall>ev\<in>set evs'. ev \<noteq> Remove jid \<and> ev \<noteq> CancelReq jid) \<and>
      clock (run (Query jid # evs') w) < tc + JobRetentionDuration \<and>
      3 \<le> count_list evs' (Read (length (readers w))) \<longrightarrow>
      (\<exists>s. snd (readers (run (Query jid # evs') w) ! length (readers w)) =
         RReturned (Some s) True)"
    using query_in_window [OF assms(1,2) nr assms(4)] by blast
  have found: "(\<exists>job'. jobs w jid = Some job' \<and> GetJobStatus_lookup jid w = RLookedUp job') \<and>
      (\<forall>i<length (readers w). fst (readers w ! i) = jid \<longrightarrow>
         (\<forall>found. snd (readers w ! i) \<noteq> RReturned None found)) \<and>
      (\<forall>i. panic (step (Read i) w) = None) \<and>
      (\<exists>s. fst (GetJobStatus jid w) = RReturned (Some s) True)"
    if job: "jobs w jid = Some job" for job
  proof -
    have "\<forall>found. snd (readers w ! i) \<noteq> RReturned None found"
      if "i < length (readers w)" "fst (readers w ! i) = jid" for i
      using readers_registered [OF reg job that] by (cases "snd (readers w ! i)") auto
    then show ?thesis
      using job GetJobStatus_lookup_registered [OF job] Read_registered(1) [OF reg job]
        GetJobStatus_found [OF reg job]
      by blast
  qed
  show ?thesis
  proof (cases "pc w = PReturned")
    case False
    then obtain job where job: "jobs w jid = Some job"
      using ret by (auto simp: ret_inv_def job_of_def)
    show ?thesis
      using False job found [OF job] later by simp
  next
    case True
    then consider
      (kept) job t where "jobs w jid = Some job"
        "job_CompletedAt (heap w job) = Some t" "tc \<le> t"
        "(t + JobRetentionDuration, jid) \<in> set (sleepers w)"
      | (gone) "jobs w jid = None" "tc + JobRetentionDuration \<le> clock w"
      using ret nr assms(4) by (auto simp: ret_inv_def job_of_def)
    then show ?thesis
    proof cases
      case kept
      have c: "jobs (CleanupJob jid w) jid =
          (if t + JobRetentionDuration \<le> clock w then None else Some job)"
        using kept(1) CleanupJob_registered(2,3) [OF reg kept(1) kept(2)] by simp
      show ?thesis
        using True kept found [OF kept(1)] c later by simp
    next
      case gone
      then show ?thesis
        using later by (simp add: GetJobStatus_unregistered)
    qed
  qed
qed

theorem retention_window_witness:
  "Status (status ex_world_done) = ''completed'' \<and>
   CompletedAt (status ex_world_done) = Some 1000 \<and>
   pc ex_world_done = PReturned \<and>
   clock ex_world_done < 1000 + JobRetentionDuration \<and>
   jobs ex_world_done ''job-1'' = Some 0 \<and>
   GetJobStatus_lookup ''job-1'' ex_world_done = RLookedUp 0 \<and>
   panic (step (Read 0) ex_world_done) = None \<and>
   fst (GetJobStatus ''job-1'' ex_world_done) = RReturned (Some (status ex_world_done)) True \<and>
   clock (run [Query ''job-1'', Read 0, Tick 7, Read 0, Read 0] ex_world_done) = 1012 \<and>
   snd (readers (run [Query ''job-1'', Read 0, Tick 7, Read 0, Read 0] ex_world_done) ! 0) =
     RReturned (Some (status ex_world_done)) True"
proof -
  have q2: "clock (run [Query ''job-1'', Read 0, Tick 7, Read 0, Read 0] ex_world_done) = 1012"
    "snd (readers (run [Query ''job-1'', Read 0, Tick 7, Read 0, Read 0] ex_world_done) ! 0) =
      RReturned (Some (status ex_world_done)) True"
    by (simp_all add: ex_world_done_def ex_simps)
  have q: "fst (GetJobStatus ''job-1'' ex_world_done) =
      RReturned (Some (status ex_world_done)) True"
    by (simp add: ex_world_done_def ex_simps)
  have evs: "\<forall>ev\<in>set (ex_go 11 ex_one @ [Tick 5]).
      ev \<noteq> Remove ''job-1'' \<and> ev \<noteq> CancelReq ''job-1''"
    by (auto simp: ex_go_def)
  have st: "Status (status ex_world_done) = ''completed'' \<or>
      Status (status ex_world_done) = ''failed'' \<or>
      Status (status ex_world_done) = ''cancelled''"
    and tc: "CompletedAt (status ex_world_done) = Some 1000"
    and rest: "pc ex_world_done = PReturned"
      "clock ex_world_done < 1000 + JobRetentionDuration"
      "jobs ex_world_done ''job-1'' = Some 0"
    by (simp_all add: ex_world_done_state JobRetentionDuration_def)
  have c: "Status (status ex_world_done) = ''completed''"
    by (simp add: ex_world_done_state)
  from retention_window [OF ex_world_done_run evs st tc] rest c tc q q2
  show ?thesis by simp
qed

text \<open>
  What a query returns inside the window need not be the final snapshot. In this run a
  call of \<open>GetJobStatus\<close> receives the first snapshot, the supervisor then runs to
  its end and \<open>MarkJobCompleted\<close> caches the final snapshot, and then the call writes
  the snapshot it holds over it: the job is completed, and later queries return the first
  \<open>running\<close> snapshot.
\<close>

lemma stale_snapshot_cached:
  "pc ex_world_stale_cache = PReturned \<and>
   Status (status ex_world_stale_cache) = ''completed'' \<and>
   panic ex_world_stale_cache = None \<and>
   jobs ex_world_stale_cache ''job-1'' = Some 0 \<and>
   LastStatus (heap ex_world_stale_cache 0) =
     Some \<lparr>ID = 0, Status = ''running'', TotalProperties = 0, ProcessedCount = 0,
           FailedCount = 0, StartedAt = 1000, CompletedAt = None, ErrorMessage = []\<rparr> \<and>
   fst (GetJobStatus ''job-1'' ex_world_stale_cache) =
     RReturned (Some \<lparr>ID = 0, Status = ''running'', TotalProperties = 0, ProcessedCount = 0,
           FailedCount = 0, StartedAt = 1000, CompletedAt = None, ErrorMessage = []\<rparr>) True"
  by (simp add: ex_world_stale_cache_def ex_simps)

section \<open>Final states and the closed status channel\<close>

lemma send_final_open:
  assumes "pc w = PSendFinal" "\<not> closed (chans w (sup_statusChan w))"
    "length (buf (chans w (sup_statusChan w))) < cap (chans w (sup_statusChan w))"
  shows "published (sup_step e pick w) = published w @ [status w] \<and>
         pc (sup_step e pick w) = PMark \<and> panic (sup_step e pick w) = panic w"
  using assms by (simp add: sup_step_def send_status_def chan_send_def)

lemma send_final_closed:
  assumes "pc w = PSendFinal" "closed (chans w (sup_statusChan w))"
  shows "sup_step e pick w = w\<lparr>panic := Some ''send on closed channel''\<rparr>"
  using assms by (simp add: sup_step_def send_status_def chan_send_def)

lemma mark_final_registered:
  assumes "pc w = PMark" "jobs w (sup_jobID w) = Some job"
  shows "jobs (sup_step e pick w) (sup_jobID w) = Some job \<and>
         heap (sup_step e pick w) job =
           (heap w job)\<lparr>LastStatus := Some (status w), job_CompletedAt := Some (clock w)\<rparr> \<and>
         sleepers (sup_step e pick w) =
           sleepers w @ [(clock w + JobRetentionDuration, sup_jobID w)] \<and>
         pc (sup_step e pick w) = PReturned"
  using assms by (simp add: sup_step_def MarkJobCompleted_def)

lemma fetch_failure_state:
  assumes "pc w = PFetch" "fetchProperties e (sup_limit w) = Inl err"
  shows "sup_step e pick w =
     w\<lparr>status := (status w)\<lparr>Status := ''failed'', ErrorMessage := err,
                               CompletedAt := Some (clock w)\<rparr>, pc := PSendFinal\<rparr> \<and> err \<noteq> []"
  using assms fetchProperties_error_nonempty [OF assms(2)] by (simp add: sup_step_def)

lemma cancel_observed_state:
  assumes "pc w = PLoop i" "i < length (properties w)" "cancelled w (sup_ctx w)"
  shows "sup_step e pick w =
     w\<lparr>status := (status w)\<lparr>Status := ''cancelled'', CompletedAt := Some (clock w)\<rparr>,
       pc := PSendFinal\<rparr>"
  using assms by (simp add: sup_step_def)

text \<open>
  C5. \<open>CancelJob\<close> closes the status channel while the supervisor still holds it. In
  these two runs the job has one listing and \<open>CancelJob\<close> arrives while the batch is in
  flight: the worker reports the context's error and the batch is counted. If the
  \<open>select\<close> at the end of \<open>processBatch\<close> picks the send, it panics there; if it picks
  \<open>ctx.Done()\<close>, the loop ends, the state becomes \<open>completed\<close>, and the send of the
  final snapshot panics. Nothing recovers the panic: it escapes the supervisor.
\<close>

theorem supervisor_panics_after_CancelJob:
  "panic ex_world_cancel_in_batch = Some ''send on closed channel'' \<and>
   pc ex_world_cancel_in_batch = PBatchSend 0 \<and>
   panic ex_world_cancel_in_batch_done = Some ''send on closed channel'' \<and>
   pc ex_world_cancel_in_batch_done = PSendFinal \<and>
   Status (status ex_world_cancel_in_batch_done) = ''completed'' \<and>
   jobs ex_world_cancel_in_batch ''job-1'' = None \<and>
   closed (chans ex_world_cancel_in_batch (sup_statusChan ex_world_cancel_in_batch)) \<and>
   ProcessedCount (status ex_world_cancel_in_batch) = 0 \<and>
   FailedCount (status ex_world_cancel_in_batch) = 1 \<and>
   map Status (published ex_world_cancel_in_batch) = [''running'', ''running''] \<and>
   calls ex_world_cancel_in_batch = []"
  by (simp add: ex_world_cancel_in_batch_def ex_world_cancel_in_batch_done_def ex_simps)

text \<open>
  C2. Eleven listings; the first batch of ten is processed and its snapshot published,
  then \<open>CancelJob\<close> is called. At the next batch boundary the supervisor sees the
  cancellation and sets the state \<open>cancelled\<close> (10 processed of 11), and the eleventh
  listing is never processed; but its send of the final snapshot panics on the closed
  channel: no \<open>cancelled\<close> snapshot is ever published and \<open>MarkJobCompleted\<close> is
  never reached.
\<close>

theorem cancelled_snapshot_not_published:
  "panic ex_world_cancel_between_batches = Some ''send on closed channel'' \<and>
   pc ex_world_cancel_between_batches = PSendFinal \<and>
   Status (status ex_world_cancel_between_batches) = ''cancelled'' \<and>
   TotalProperties (status ex_world_cancel_between_batches) = 11 \<and>
   ProcessedCount (status ex_world_cancel_between_batches) = 10 \<and>
   FailedCount (status ex_world_cancel_between_batches) = 0 \<and>
   map Status (published ex_world_cancel_between_batches) =
     [''running'', ''running'', ''running''] \<and>
   length (calls ex_world_cancel_between_batches) = 10 \<and>
   jobs ex_world_cancel_between_batches ''job-1'' = None \<and>
   sleepers ex_world_cancel_between_batches = []"
  by (simp add: ex_world_cancel_between_batches_def ex_simps)

text \<open>
  C6. \<open>CancelJob\<close> is called while the fetch is in flight; the request fails with the
  context's error. The supervisor sets the state \<open>failed\<close> with a non-empty message and
  processes no batch, but its send of that snapshot panics on the closed channel: the
  snapshot is not published and \<open>MarkJobCompleted\<close> is never reached.
\<close>

theorem fetch_failure_after_CancelJob_panics:
  "panic ex_world_cancel_in_fetch = Some ''send on closed channel'' \<and>
   pc ex_world_cancel_in_fetch = PSendFinal \<and>
   Status (status ex_world_cancel_in_fetch) = ''failed'' \<and>
   ErrorMessage (status ex_world_cancel_in_fetch) =
     ''failed to fetch properties: context canceled'' \<and>
   TotalProperties (status ex_world_cancel_in_fetch) = 0 \<and>
   ProcessedCount (status ex_world_cancel_in_fetch) = 0 \<and>
   FailedCount (status ex_world_cancel_in_fetch) = 0 \<and>
   map Status (published ex_world_cancel_in_fetch) = [''running''] \<and>
   calls ex_world_cancel_in_fetch = [] \<and>
   jobs ex_world_cancel_in_fetch ''job-1'' = None \<and>
   sleepers ex_world_cancel_in_fetch = []"
  by (simp add: ex_world_cancel_in_fetch_def ex_simps)

end
